theory Spec2Isabelle
  imports Main "HOL-Library.Word"
begin

unbundle bit_operations_syntax

section \<open>Data model\<close>

type_synonym u8 = "8 word"
type_synonym u32 = "32 word"

text \<open>
  Outcome of one readiness wait on the serial descriptor, as the stream primitives of
  the host see it: \<open>select\<close> timed out, \<open>select\<close> failed, or the descriptor is readable
  and the given bytes are pending.
\<close>

datatype rx_event = Timeout | SelErr | Avail "u8 list"

text \<open>
  The host process and what it can observe of its environment (\<open>g_cfg\<close> and the two
  transports).
  \<^item> \<open>safe_mode\<close> is \<open>g_cfg.safe_mode\<close>; \<open>serial\<close> is \<open>use_serial()\<close>.
  \<^item> \<open>out_log\<close> holds every byte handed to the output lines by \<open>_outb\<close>, oldest first.
  \<^item> \<open>in_src k\<close> is the value the \<open>k\<close>-th call of \<open>_inb\<close> returns (the status register of
    the parallel port, or the reply of the bridge; \<open>serial_inb\<close> returns 1 when its exchange
    fails); \<open>in_cnt\<close> counts the calls made so far.
  \<^item> \<open>slept\<close> holds the arguments of \<open>usleep\<close>, in microseconds, oldest first.
  \<^item> \<open>tx\<close> holds the bytes the stream primitives wrote to the serial descriptor;
    \<open>wr_ok k\<close> tells whether the \<open>k\<close>-th such \<open>write\<close> succeeds (returns more than 0);
    \<open>rx\<close> holds the outcomes of the readiness waits still to come (none left: time-out).
  \<^item> \<open>fopen_ok\<close> tells whether the output file can be created; \<open>file_out\<close> is what was
    written to it.
\<close>

record host =
  safe_mode :: bool
  serial :: bool
  out_log :: "u8 list"
  in_src :: "nat \<Rightarrow> u8"
  in_cnt :: nat
  slept :: "nat list"
  tx :: "u8 list"
  wr_ok :: "nat \<Rightarrow> bool"
  wr_cnt :: nat
  rx :: "rx_event list"
  fopen_ok :: bool
  file_out :: "u8 list option"

section \<open>Host: signal encoder\<close>

definition CMD_RESET :: u8 where "CMD_RESET = 0x00"
definition CMD_ERASE :: u8 where "CMD_ERASE = 0x03"
definition CMD_WRITE_BYTE :: u8 where "CMD_WRITE_BYTE = 0x05"
definition CMD_READ_INIT :: "u8 list" where "CMD_READ_INIT = [0x11, 0x00, 0x00, 0x00, 0x00]"
definition CMD_READ :: u8 where "CMD_READ = 0x0d"
definition MASK_CHIP_DATA :: u8 where "MASK_CHIP_DATA = 0x10"
definition MASK_CHIP_ERR :: u8 where "MASK_CHIP_ERR = 0x08"
definition BIOS_SIZE :: u32 where "BIOS_SIZE = 0x20000"
definition MAX_TRIES :: nat where "MAX_TRIES = 4"

text \<open>\<open>_outb\<close>: \<open>serial_outb\<close> sends \<open>data & 0x3f\<close>, the port gets \<open>data\<close>.\<close>

definition host_outb :: "u8 \<Rightarrow> host \<Rightarrow> host" where
  "host_outb data s =
     s\<lparr>out_log := out_log s @ [if serial s then data AND 0x3f else data]\<rparr>"

text \<open>\<open>_inb\<close>: one sample of the input lines.\<close>

definition host_inb :: "host \<Rightarrow> u8 \<times> host" where
  "host_inb s = (in_src s (in_cnt s), s\<lparr>in_cnt := Suc (in_cnt s)\<rparr>)"

definition usleep :: "nat \<Rightarrow> host \<Rightarrow> host" where
  "usleep us s = s\<lparr>slept := slept s @ [us]\<rparr>"

text \<open>
  \<open>safe_mode_check\<close>: the loop \<open>for (tries = 0; tries < MAX_TRIES; ++tries)\<close>, entered at
  \<open>tries\<close>. Returns 0 as soon as the acknowledgment line is at the expected level and 1
  when the tries are used up.
\<close>

function safe_mode_check_from :: "nat \<Rightarrow> bool \<Rightarrow> host \<Rightarrow> int \<times> host" where
  "safe_mode_check_from tries high s =
     (if tries < MAX_TRIES then
        (case host_inb s of (v, s1) \<Rightarrow>
           (let r = v AND MASK_CHIP_ERR in
            if (high \<and> r \<noteq> 0) \<or> (\<not> high \<and> r = 0) then (0, s1)
            else safe_mode_check_from (Suc tries) high (usleep (2 ^ tries * 125) s1)))
      else (1, s))"
  by pat_completeness auto
termination
  by (relation "measure (\<lambda>(tries, high, s). MAX_TRIES - tries)") auto

definition safe_mode_check :: "bool \<Rightarrow> host \<Rightarrow> int \<times> host" where
  "safe_mode_check high s = safe_mode_check_from 0 high s"

text \<open>The six output lines for a pentad, strobe low: \<open>formatted_data\<close> of \<open>outp\<close>.\<close>

definition formatted :: "u8 \<Rightarrow> u8" where
  "formatted data = (if data AND 0x10 \<noteq> 0 then (data AND 0xf) OR 0x20 else data AND 0xf)"

text \<open>\<open>outp\<close>: writes 5 bits (a pentad) encoded on 6 wires and checks for errors.\<close>

definition outp :: "u8 \<Rightarrow> host \<Rightarrow> int \<times> host" where
  "outp data s =
     (let formatted_data = formatted data;
          s1 = host_outb formatted_data s;
          (r1, s2) = (if safe_mode s1 then safe_mode_check True s1 else (0, s1))
      in if r1 \<noteq> 0 then (1, s2)
         else
           (let s3 = host_outb (formatted_data OR 0x10) s2;
                (r2, s4) = (if safe_mode s3 then safe_mode_check False s3 else (0, s3))
            in if r2 \<noteq> 0 then (1, s4) else (0, s4)))"

section \<open>Host: chip protocol\<close>

text \<open>
  \<open>read_byte\<close>: the loop over the eight bits, entered at bit \<open>i\<close> with the bits gathered so
  far in \<open>data\<close>. The result is the status and the byte.
\<close>

function read_bits :: "nat \<Rightarrow> u8 \<Rightarrow> host \<Rightarrow> int \<times> u8 \<times> host" where
  "read_bits i data s =
     (if i < 8 then
        (case host_inb s of (val, s1) \<Rightarrow>
           (let data' = push_bit 3 (val AND MASK_CHIP_DATA) OR drop_bit 1 data in
            case outp (of_nat i) s1 of (r, s2) \<Rightarrow>
              if r \<noteq> 0 then (1, data', s2) else read_bits (Suc i) data' s2))
      else (0, data, s))"
  by pat_completeness auto
termination
  by (relation "measure (\<lambda>(i, data, s). 8 - i)") auto

text \<open>
  \<open>read_byte(&out)\<close>: \<open>out\<close> is the byte the caller's variable holds before the call; the
  second component of the result is what it holds after. A failed read leaves it as it
  was.
\<close>

definition read_byte :: "u8 \<Rightarrow> host \<Rightarrow> int \<times> u8 \<times> host" where
  "read_byte out s =
     (case outp CMD_READ s of (r, s1) \<Rightarrow>
        if r \<noteq> 0 then (1, out, s1)
        else (case read_bits 0 0 s1 of (r', data, s2) \<Rightarrow>
                if r' \<noteq> 0 then (1, out, s2) else (0, data, s2)))"

text \<open>
  A chain \<open>outp(a) || outp(b) || ...\<close>: the pentads are emitted in order up to the first
  failure; the value is 1 if one failed and 0 otherwise.
\<close>

fun outp_chain :: "u8 list \<Rightarrow> host \<Rightarrow> int \<times> host" where
  "outp_chain [] s = (0, s)"
| "outp_chain (d # ds) s =
     (case outp d s of (r, s1) \<Rightarrow> if r \<noteq> 0 then (1, s1) else outp_chain ds s1)"

definition init_read_mode :: "host \<Rightarrow> int \<times> host" where
  "init_read_mode s = outp_chain CMD_READ_INIT s"

text \<open>The four trailing \<open>outp(data)\<close> of \<open>write_byte\<close>, whose results are dropped.\<close>

fun outp_repeat :: "nat \<Rightarrow> u8 \<Rightarrow> host \<Rightarrow> host" where
  "outp_repeat 0 data s = s"
| "outp_repeat (Suc n) data s = outp_repeat n data (snd (outp data s))"

text \<open>\<open>write_byte(data, address)\<close>: writes a byte of data at a given address.\<close>

definition write_byte :: "u8 \<Rightarrow> u32 \<Rightarrow> host \<Rightarrow> int \<times> host" where
  "write_byte data address0 s =
     (if data = 0xff then (0, s)
      else
        (let address = address0 AND 0x1ffff in
         case outp CMD_WRITE_BYTE s of (r0, s0) \<Rightarrow>
         if r0 \<noteq> 0 then (1, s0) else
         case outp (ucast (ucast (drop_bit 3 data AND 0x1c) OR drop_bit 15 address)) s0 of (r1, s1) \<Rightarrow>
         if r1 \<noteq> 0 then (1, s1) else
         case outp (ucast (drop_bit 10 address)) s1 of (r2, s2) \<Rightarrow>
         if r2 \<noteq> 0 then (1, s2) else
         case outp (ucast (drop_bit 5 address)) s2 of (r3, s3) \<Rightarrow>
         if r3 \<noteq> 0 then (1, s3) else
         case outp (ucast address) s3 of (r4, s4) \<Rightarrow>
         if r4 \<noteq> 0 then (1, s4) else
         (0, outp_repeat 4 data s4)))"

text \<open>
  \<open>erase_chip\<close>: the loop \<open>do { c1 = c2; init_read_mode(); read_byte(&c2); } while (c1 != c2)\<close>,
  entered with \<open>c2\<close>. The results of \<open>init_read_mode\<close> and \<open>read_byte\<close> are dropped, as in the
  source. The loop has no bound: a run that never leaves it has the value \<open>None\<close>.
\<close>

partial_function (option) erase_loop :: "u8 \<Rightarrow> host \<Rightarrow> host option" where
  "erase_loop c2 s =
     (let c1 = c2;
          s1 = snd (init_read_mode s);
          rd = read_byte c2 s1
      in if c1 \<noteq> fst (snd rd) then erase_loop (fst (snd rd)) (snd (snd rd))
         else Some (snd (snd rd)))"

declare erase_loop.simps [code]

text \<open>
  \<open>erase_chip\<close>: \<open>c2_init\<close> is the indeterminate value the local \<open>c2\<close> holds before the first
  \<open>read_byte(&c2)\<close>. The function returns nothing; reaching its end (the message
  \<open>Done\<close>) is the value \<open>Some\<close>.
\<close>

definition erase_chip :: "u8 \<Rightarrow> host \<Rightarrow> host option" where
  "erase_chip c2_init s =
     (let s1 = outp_repeat 13 CMD_ERASE s;
          s2 = snd (init_read_mode s1);
          rd = read_byte c2_init s2
      in erase_loop (fst (snd rd)) (snd (snd rd)))"

text \<open>
  The byte reads of \<open>erase_chip\<close>, taken one after the other from the state \<open>s\<close> that
  follows the erase pentads, with \<open>c2\<close> the first content of the variable: \<open>erase_read k\<close>
  is the result of the \<open>(k+1)\<close>-th pair \<open>init_read_mode(); read_byte(&c2)\<close>, that is, the
  status of \<open>read_byte\<close>, the content of \<open>c2\<close> after it and the state after it. The first
  pair stands before the loop, every further one is a pass of the loop, as long as the
  loop goes on.
\<close>

fun erase_read :: "nat \<Rightarrow> u8 \<Rightarrow> host \<Rightarrow> int \<times> u8 \<times> host" where
  "erase_read 0 c2 s = read_byte c2 (snd (init_read_mode s))"
| "erase_read (Suc k) c2 s =
     (let rd = erase_read k c2 s
      in read_byte (fst (snd rd)) (snd (init_read_mode (snd (snd rd)))))"

text \<open>
  The status of the \<open>init_read_mode()\<close> of the \<open>(k+1)\<close>-th pair, which \<open>erase_chip\<close> drops.
\<close>

fun erase_init :: "nat \<Rightarrow> u8 \<Rightarrow> host \<Rightarrow> int" where
  "erase_init 0 c2 s = fst (init_read_mode s)"
| "erase_init (Suc k) c2 s = fst (init_read_mode (snd (snd (erase_read k c2 s))))"

section \<open>Host: serial stream primitives\<close>

text \<open>
  \<open>write(g_cfg.serial, buf, n)\<close> as the stream primitives use it: the call fails as a
  whole (a result \<open>\<le> 0\<close>) or sends all its bytes.
\<close>

definition serial_write :: "u8 list \<Rightarrow> host \<Rightarrow> bool \<times> host" where
  "serial_write bytes s =
     (if wr_ok s (wr_cnt s)
      then (True, s\<lparr>tx := tx s @ bytes, wr_cnt := Suc (wr_cnt s)\<rparr>)
      else (False, s\<lparr>wr_cnt := Suc (wr_cnt s)\<rparr>))"

text \<open>
  \<open>serial_wait_data\<close>: 0 when the descriptor is readable, -1 on a \<open>select\<close> error and -2 on
  a time-out. The length of the time-out (1 s by default, 5 s for an acknowledgment) is
  part of the environment: it decides which outcome comes next.
\<close>

definition serial_wait_data :: "host \<Rightarrow> int \<times> host" where
  "serial_wait_data s =
     (case rx s of
        [] \<Rightarrow> (- 2, s)
      | Timeout # es \<Rightarrow> (- 2, s\<lparr>rx := es\<rparr>)
      | SelErr # es \<Rightarrow> (- 1, s\<lparr>rx := es\<rparr>)
      | Avail bs # es \<Rightarrow> (0, s))"

text \<open>
  \<open>read(g_cfg.serial, buf, n)\<close> on the non-blocking descriptor: up to \<open>n\<close> of the pending
  bytes; what is left stays pending.
\<close>

definition serial_read :: "nat \<Rightarrow> host \<Rightarrow> u8 list \<times> host" where
  "serial_read n s =
     (case rx s of
        Avail bs # es \<Rightarrow>
          (take n bs, s\<lparr>rx := (if drop n bs = [] then es else Avail (drop n bs) # es)\<rparr>)
      | _ \<Rightarrow> ([], s))"

text \<open>The three bytes that open a stream: \<open>read_cmd\<close> and \<open>write_cmd\<close>.\<close>

definition stream_cmd :: "u8 \<Rightarrow> u32 \<Rightarrow> u8 list" where
  "stream_cmd tag sz =
     [ucast (ucast tag OR drop_bit 16 sz), ucast (drop_bit 8 sz AND 0xff), ucast (sz AND 0xff)]"

fun rx_size :: "rx_event list \<Rightarrow> nat" where
  "rx_size [] = 0"
| "rx_size (Avail bs # es) = Suc (length bs) + rx_size es"
| "rx_size (e # es) = Suc (rx_size es)"

text \<open>
  \<open>serial_read_byte_stream\<close>: the loop \<open>for (i = 0; i < max; )\<close>, entered at \<open>i\<close>. The buffer
  \<open>bios_buffer\<close> is a list at least \<open>max'\<close> long (\<open>max'\<close> is the parameter \<open>max\<close>).
\<close>

function read_stream_loop :: "u32 \<Rightarrow> u32 \<Rightarrow> u8 list \<Rightarrow> host \<Rightarrow> int \<times> u8 list \<times> host" where
  "read_stream_loop i max' bios_buffer s =
     (if i < max' then
        (if fst (serial_wait_data s) \<noteq> 0 then (1, bios_buffer, snd (serial_wait_data s))
         else
           (let got = fst (serial_read (unat (max' - i)) (snd (serial_wait_data s)));
                s2 = snd (serial_read (unat (max' - i)) (snd (serial_wait_data s)))
            in read_stream_loop (i + of_nat (length got)) max'
                 (take (unat i) bios_buffer @ got @ drop (unat i + length got) bios_buffer) s2))
      else (0, bios_buffer, s))"
  by pat_completeness auto
termination
proof (relation "measure (\<lambda>(i, max', bios_buffer, s). rx_size (rx s))")
  show "wf (measure (\<lambda>(i, max', bios_buffer, s). rx_size (rx s)))"
    by simp
next
  fix i max' :: u32 and bios_buffer :: "u8 list" and s :: host and got s2
  assume lt: "i < max'" and w: "\<not> fst (serial_wait_data s) \<noteq> 0"
    and s2: "s2 = snd (serial_read (unat (max' - i)) (snd (serial_wait_data s)))"
  from lt have pos: "0 < unat (max' - i)"
    by (simp add: unat_gt_0)
  from w obtain bs es where rx: "rx s = Avail bs # es"
    by (auto simp: serial_wait_data_def split: list.splits rx_event.splits)
  then have same: "snd (serial_wait_data s) = s"
    by (simp add: serial_wait_data_def)
  have "rx_size (rx s2) < rx_size (rx s)"
  proof (cases bs)
    case Nil
    with rx same s2 show ?thesis by (simp add: serial_read_def)
  next
    case (Cons b bs')
    with rx same s2 pos show ?thesis by (auto simp: serial_read_def)
  qed
  then show "((i + of_nat (length got), max',
       take (unat i) bios_buffer @ got @ drop (unat i + length got) bios_buffer, s2),
      (i, max', bios_buffer, s)) \<in> measure (\<lambda>(i, max', bios_buffer, s). rx_size (rx s))"
    by simp
qed

definition serial_read_byte_stream :: "u8 list \<Rightarrow> u32 \<Rightarrow> host \<Rightarrow> int \<times> u8 list \<times> host" where
  "serial_read_byte_stream bios_buffer max' s =
     (case serial_write (stream_cmd 0x80 max') s of (ok, s1) \<Rightarrow>
        if \<not> ok then (1, bios_buffer, s1) else read_stream_loop 0 max' bios_buffer s1)"

text \<open>
  \<open>serial_write_byte_stream\<close>: the loop \<open>for (i = 0; i < data_sz; i += 60)\<close>, entered at \<open>i\<close>.
  The array \<open>data\<close> is a list at least \<open>data_sz\<close> long. The result of the \<open>write\<close> of the
  padding is dropped, as in the source.
\<close>

function write_stream_loop :: "u32 \<Rightarrow> u8 list \<Rightarrow> u32 \<Rightarrow> host \<Rightarrow> int \<times> host" where
  "write_stream_loop i data data_sz s =
     (if i < data_sz then
        (let left = data_sz - i;
             write_sz = (if left < 60 then left else 60);
             w = serial_write (take (unat write_sz) (drop (unat i) data)) s
         in if \<not> fst w then (1, snd w)
            else
              (let s2 = (if left < 60
                         then snd (serial_write (replicate (unat (60 - left)) 0) (snd w))
                         else snd w)
               in if fst (serial_wait_data s2) \<noteq> 0 then (1, snd (serial_wait_data s2))
                  else
                    (let got = fst (serial_read 1 (snd (serial_wait_data s2)));
                         s4 = snd (serial_read 1 (snd (serial_wait_data s2)))
                     in if length got \<noteq> 1 \<or> hd got \<noteq> 60 then (1, s4)
                        else write_stream_loop (i + 60) data data_sz s4)))
      else (0, s))"
  by pat_completeness auto
termination
proof (relation "measure (\<lambda>(i, data, data_sz, s). rx_size (rx s))")
  show "wf (measure (\<lambda>(i, data, data_sz, s). rx_size (rx s)))"
    by simp
next
  fix i data_sz left write_sz :: u32 and data :: "u8 list" and s :: host and w s2 got s4
  assume w: "w = serial_write (take (unat write_sz) (drop (unat i) data)) s"
    and s2: "s2 = (if left < 60
                   then snd (serial_write (replicate (unat (60 - left)) 0) (snd w))
                   else snd w)"
    and ready: "\<not> fst (serial_wait_data s2) \<noteq> 0"
    and s4: "s4 = snd (serial_read 1 (snd (serial_wait_data s2)))"
  have rx2: "rx s2 = rx s"
    by (simp add: w s2 serial_write_def)
  from ready obtain bs es where rx: "rx s2 = Avail bs # es"
    by (auto simp: serial_wait_data_def split: list.splits rx_event.splits)
  then have same: "snd (serial_wait_data s2) = s2"
    by (simp add: serial_wait_data_def)
  have "rx_size (rx s4) < rx_size (rx s2)"
  proof (cases bs)
    case Nil
    with rx same s4 show ?thesis by (simp add: serial_read_def)
  next
    case (Cons b bs')
    with rx same s4 show ?thesis by (auto simp: serial_read_def)
  qed
  with rx2 show "((i + 60, data, data_sz, s4), (i, data, data_sz, s))
      \<in> measure (\<lambda>(i, data, data_sz, s). rx_size (rx s))"
    by simp
qed

definition serial_write_byte_stream :: "u8 list \<Rightarrow> u32 \<Rightarrow> host \<Rightarrow> int \<times> host" where
  "serial_write_byte_stream data data_sz s =
     (case serial_write (stream_cmd 0xc0 data_sz) s of (ok, s1) \<Rightarrow>
        if \<not> ok then (1, s1) else write_stream_loop 0 data data_sz s1)"

section \<open>Host: the read operation\<close>

text \<open>
  \<open>read_bios\<close>: the loop \<open>for (i = 0; !use_serial() && i < BIOS_SIZE; i++)\<close> of the direct
  transport, entered at \<open>i\<close>; a failed \<open>read_byte\<close> leaves the loop (\<open>break\<close>).
\<close>

function read_loop :: "nat \<Rightarrow> u8 list \<Rightarrow> host \<Rightarrow> u8 list \<times> host" where
  "read_loop i bios_buffer s =
     (if \<not> serial s \<and> i < unat BIOS_SIZE then
        (case read_byte (bios_buffer ! i) s of (r, v, s1) \<Rightarrow>
           if r \<noteq> 0 then (bios_buffer[i := v], s1)
           else read_loop (Suc i) (bios_buffer[i := v]) s1)
      else (bios_buffer, s))"
  by pat_completeness auto
termination
  by (relation "measure (\<lambda>(i, bios_buffer, s). unat BIOS_SIZE - i)") auto

text \<open>
  \<open>read_bios\<close>: \<open>bios_buffer\<close> is the indeterminate content of the local array of
  \<open>BIOS_SIZE\<close> bytes. The result is what \<open>main\<close> returns as the exit status of the process.
\<close>

definition read_bios :: "u8 list \<Rightarrow> host \<Rightarrow> int \<times> host" where
  "read_bios bios_buffer s =
     (case init_read_mode s of (r, s1) \<Rightarrow>
        if r \<noteq> 0 then (1, snd (outp CMD_RESET s1))
        else
          (let st = (if serial s1
                     then snd (serial_read_byte_stream bios_buffer BIOS_SIZE s1)
                     else (bios_buffer, s1));
               lp = read_loop 0 (fst st) (snd st);
               s4 = snd (outp CMD_RESET (snd lp))
           in if \<not> fopen_ok s4 then (1, s4)
              else (0, s4\<lparr>file_out := Some (take (unat BIOS_SIZE) (fst lp))\<rparr>)))"

section \<open>Bridge firmware\<close>

text \<open>
  The microcontroller and what it can observe of its environment.
  \<^item> \<open>portd\<close> is the register \<open>PORTD\<close> (pins D2 to D7 drive the six lines to the chip);
    \<open>portd_log\<close> holds every value stored in it, oldest first.
  \<^item> \<open>err_src k\<close> tells whether the \<open>k\<close>-th \<open>digitalRead(PIN_ERR)\<close> gives \<open>HIGH\<close>;
    \<open>err_cnt\<close> counts these reads.
  \<^item> \<open>delays\<close> holds the arguments of \<open>delay\<close>, in milliseconds, oldest first.
  \<^item> \<open>ser_in\<close> holds the bytes that arrive on the serial link and are not read yet;
    \<open>ser_out\<close> holds the bytes sent with \<open>Serial.write\<close>.
\<close>

record fw =
  portd :: u8
  portd_log :: "u8 list"
  err_src :: "nat \<Rightarrow> bool"
  err_cnt :: nat
  delays :: "nat list"
  ser_in :: "u8 list"
  ser_out :: "u8 list"

definition fw_outb :: "u8 \<Rightarrow> fw \<Rightarrow> fw" where
  "fw_outb data f =
     (let v = push_bit 2 data OR (portd f AND 0x3)
      in f\<lparr>portd := v, portd_log := portd_log f @ [v]\<rparr>)"

definition digitalRead_ERR :: "fw \<Rightarrow> bool \<times> fw" where
  "digitalRead_ERR f = (err_src f (err_cnt f), f\<lparr>err_cnt := Suc (err_cnt f)\<rparr>)"

definition delay :: "nat \<Rightarrow> fw \<Rightarrow> fw" where
  "delay ms f = f\<lparr>delays := delays f @ [ms]\<rparr>"

text \<open>
  The firmware's \<open>safe_mode_check\<close>, entered at \<open>tries\<close>. Each pass of the loop reads the
  pin once: with \<open>check_high\<close> the first disjunct reads it and the second stops at
  \<open>!check_high\<close>; without, the first stops at \<open>check_high\<close> and the second reads it.
\<close>

function fw_safe_mode_check_from :: "nat \<Rightarrow> bool \<Rightarrow> fw \<Rightarrow> int \<times> fw" where
  "fw_safe_mode_check_from tries check_high f =
     (if tries < MAX_TRIES then
        (case digitalRead_ERR f of (lvl, f1) \<Rightarrow>
           if (check_high \<and> lvl) \<or> (\<not> check_high \<and> \<not> lvl) then (0, f1)
           else fw_safe_mode_check_from (Suc tries) check_high (delay 1 f1))
      else (1, f))"
  by pat_completeness auto
termination
  by (relation "measure (\<lambda>(tries, check_high, f). MAX_TRIES - tries)") auto

definition fw_safe_mode_check :: "bool \<Rightarrow> fw \<Rightarrow> int \<times> fw" where
  "fw_safe_mode_check check_high f = fw_safe_mode_check_from 0 check_high f"

definition fw_outp :: "u8 \<Rightarrow> fw \<Rightarrow> int \<times> fw" where
  "fw_outp data f =
     (let formatted_data = formatted data;
          f1 = fw_outb formatted_data f;
          (r1, f2) = fw_safe_mode_check True f1
      in if r1 \<noteq> 0 then (1, f2)
         else
           (let f3 = fw_outb (formatted_data OR 0x10) f2;
                (r2, f4) = fw_safe_mode_check False f3
            in if r2 \<noteq> 0 then (1, f4) else (0, f4)))"

text \<open>
  \<open>read_size\<close>: \<open>Serial.readBytes(size, 2)\<close> takes up to two bytes (it gives up after its
  time-out); a byte that did not arrive stays 0.
\<close>

definition fw_read_size :: "u8 \<Rightarrow> fw \<Rightarrow> u32 \<times> fw" where
  "fw_read_size first0 f =
     (let got = take 2 (ser_in f);
          size0 = (if 0 < length got then got ! 0 else 0);
          size1 = (if 1 < length got then got ! 1 else 0);
          first = first0 AND 0x3f
      in (push_bit 16 (ucast first) OR push_bit 8 (ucast size0) OR ucast size1,
          f\<lparr>ser_in := drop 2 (ser_in f)\<rparr>))"

fun fw_outp_repeat :: "nat \<Rightarrow> u8 \<Rightarrow> fw \<Rightarrow> fw" where
  "fw_outp_repeat 0 data f = f"
| "fw_outp_repeat (Suc n) data f = fw_outp_repeat n data (snd (fw_outp data f))"

text \<open>The firmware's \<open>write_byte(address, data)\<close>: the address is not masked.\<close>

definition fw_write_byte :: "u32 \<Rightarrow> u8 \<Rightarrow> fw \<Rightarrow> int \<times> fw" where
  "fw_write_byte address data f =
     (if data = 0xff then (0, f)
      else
        (case fw_outp CMD_WRITE_BYTE f of (r0, f0) \<Rightarrow>
         if r0 \<noteq> 0 then (1, f0) else
         case fw_outp (ucast (ucast (drop_bit 3 data AND 0x1c) OR drop_bit 15 address)) f0 of (r1, f1) \<Rightarrow>
         if r1 \<noteq> 0 then (1, f1) else
         case fw_outp (ucast (drop_bit 10 address)) f1 of (r2, f2) \<Rightarrow>
         if r2 \<noteq> 0 then (1, f2) else
         case fw_outp (ucast (drop_bit 5 address)) f2 of (r3, f3) \<Rightarrow>
         if r3 \<noteq> 0 then (1, f3) else
         case fw_outp (ucast address) f3 of (r4, f4) \<Rightarrow>
         if r4 \<noteq> 0 then (1, f4) else
         (0, fw_outp_repeat 4 data f4)))"

text \<open>
  \<open>write_byte_stream\<close>: the loop \<open>for (i = 0; i < total; ++i)\<close>, entered at \<open>i\<close> with the work
  buffer \<open>data_buffer\<close>. \<open>Serial.readBytes(data_buffer, 60)\<close> takes up to 60 bytes and
  returns their number, which is sent back at once. The counter cannot wrap:
  \<open>i < total\<close> holds before each increment.
\<close>

function fw_write_loop :: "nat \<Rightarrow> u32 \<Rightarrow> u8 list \<Rightarrow> fw \<Rightarrow> int \<times> fw" where
  "fw_write_loop i total' data_buffer f =
     (if i < unat total' then
        (let got = take 60 (ser_in f);
             r = length got;
             refill = (i mod 60 = 0);
             f1 = (if refill
                   then f\<lparr>ser_in := drop 60 (ser_in f), ser_out := ser_out f @ [of_nat r]\<rparr>
                   else f);
             buf = (if refill then got @ drop r data_buffer else data_buffer)
         in if refill \<and> r < 60 then (1, f1)
            else
              (case fw_write_byte (of_nat i) (buf ! (i mod 60)) f1 of (rw, f2) \<Rightarrow>
                 if rw \<noteq> 0 then (1, f2) else fw_write_loop (Suc i) total' buf f2))
      else (0, f))"
  by pat_completeness auto
termination
  by (relation "measure (\<lambda>(i, total', data_buffer, f). unat total' - i)") auto

text \<open>
  \<open>write_byte_stream\<close>: the local \<open>data_buffer\<close> of 60 bytes is filled by the first pass
  of the loop before any byte of it is read, so its indeterminate first content is
  taken as zeros.
\<close>

definition fw_write_byte_stream :: "u8 \<Rightarrow> fw \<Rightarrow> int \<times> fw" where
  "fw_write_byte_stream first f =
     (case fw_read_size first f of (total', f1) \<Rightarrow>
        fw_write_loop 0 total' (replicate 60 0) f1)"

section \<open>What the chip sees on the output lines\<close>

text \<open>
  The bytes put on the output lines between two states of the host.
\<close>

definition emitted :: "host \<Rightarrow> host \<Rightarrow> u8 list" where
  "emitted s s' = drop (length (out_log s)) (out_log s')"

text \<open>
  \<open>outp\<close> presents every pentad first with the strobe line (bit 4 of the output byte)
  low and then with the strobe high. The payload sits on lines 0 to 3 and on line 5,
  which carries bit 4 of the pentad. Reading the bytes with the strobe low gives the
  pentads in the order of their emission.
\<close>

definition strobe_low :: "u8 \<Rightarrow> bool" where
  "strobe_low b = (b AND 0x10 = 0)"

definition pentad_of_wire :: "u8 \<Rightarrow> u8" where
  "pentad_of_wire b = (b AND 0xf) OR (if b AND 0x20 \<noteq> 0 then 0x10 else 0)"

definition pentads_of :: "u8 list \<Rightarrow> u8 list" where
  "pentads_of bs = map pentad_of_wire (filter strobe_low bs)"

text \<open>
  The address a write carries: 2 bits from the pentad that follows the command (the
  pentad it shares with the top data bits), then three groups of 5 bits.
\<close>

fun address_of_pentads :: "u8 list \<Rightarrow> u32" where
  "address_of_pentads (c # p1 # p2 # p3 # p4 # rest) =
     push_bit 15 (ucast (p1 AND 0x3)) OR push_bit 10 (ucast p2)
       OR push_bit 5 (ucast p3) OR ucast p4"
| "address_of_pentads _ = 0"

text \<open>
  The firmware drives the same six lines from bits 2 to 7 of \<open>PORTD\<close>.
\<close>

definition fw_pentads_of :: "u8 list \<Rightarrow> u8 list" where
  "fw_pentads_of vs = pentads_of (map (drop_bit 2) vs)"

definition fw_emitted :: "fw \<Rightarrow> fw \<Rightarrow> u8 list" where
  "fw_emitted f f' = drop (length (portd_log f)) (portd_log f')"

section \<open>Example states\<close>

text \<open>
  A host on the parallel port in safe mode whose acknowledgment line (bit 3 of the status
  register) stays low, and one whose chip answers at the first sample each time: high
  once a pentad stands on the lines with the strobe low, low once the strobe is raised.
\<close>

definition host_stuck :: host where
  "host_stuck =
     \<lparr>safe_mode = True, serial = False, out_log = [], in_src = (\<lambda>k. 0), in_cnt = 0,
      slept = [], tx = [], wr_ok = (\<lambda>k. True), wr_cnt = 0, rx = [], fopen_ok = True,
      file_out = None\<rparr>"

definition host_prompt :: host where
  "host_prompt = host_stuck\<lparr>in_src := (\<lambda>k. if even k then 0x08 else 0x00)\<rparr>"

text \<open>
  A chip that answers the first five pentads (ten samples) and then leaves the
  acknowledgment line low.
\<close>

definition host_fades :: host where
  "host_fades = host_stuck\<lparr>in_src := (\<lambda>k. if k < 10 \<and> even k then 0x08 else 0x00)\<rparr>"

text \<open>
  A host on the serial bridge whose chip answers every pentad at once, and whose bridge
  sends nothing back once a stream is requested: every readiness wait of the stream
  times out.
\<close>

definition host_bridge_silent :: host where
  "host_bridge_silent = host_prompt\<lparr>serial := True, rx := []\<rparr>"


text \<open>The same two chips, seen from the bridge firmware.\<close>

definition fw_stuck :: fw where
  "fw_stuck =
     \<lparr>portd = 0, portd_log = [], err_src = (\<lambda>k. False), err_cnt = 0, delays = [],
      ser_in = [], ser_out = []\<rparr>"

definition fw_prompt :: fw where
  "fw_prompt = fw_stuck\<lparr>err_src := even\<rparr>"

text \<open>
  A chip that answers at the first sample each time, from the present state on: the
  samples of the acknowledgment line read high, low, high, low, and so on.
\<close>

definition chip_prompt :: "host \<Rightarrow> bool" where
  "chip_prompt s = (\<forall>k. (in_src s (in_cnt s + k) AND MASK_CHIP_ERR \<noteq> 0) = even k)"

definition fw_chip_prompt :: "fw \<Rightarrow> bool" where
  "fw_chip_prompt f = (\<forall>k. err_src f (err_cnt f + k) = even k)"

text \<open>
  The status register during one pair \<open>init_read_mode(); read_byte(&c2)\<close> that a chip
  in safe mode answers at once, sample by sample. The pair takes 36 samples: two for each
  of the five pentads of \<open>CMD_READ_INIT\<close> and for \<open>CMD_READ\<close> (acknowledgment high, then
  low), and three for each of the eight bits (the data sample, then the two
  acknowledgments of the pentad that acknowledges the bit). The data line stays low: the
  byte read is \<open>0x00\<close>.
\<close>

definition read_pass_line :: "nat \<Rightarrow> u8" where
  "read_pass_line k =
     (if k < 12 then (if even k then 0x08 else 0x00)
      else if (k - 12) mod 3 = 1 then 0x08 else 0x00)"

text \<open>
  A status register that reads \<open>first k\<close> during the first \<open>e\<close> samples, then answers \<open>n\<close>
  such pairs, and then stays low.
\<close>

definition chip_line :: "(nat \<Rightarrow> u8) \<Rightarrow> nat \<Rightarrow> nat \<Rightarrow> nat \<Rightarrow> u8" where
  "chip_line first e n k =
     (if k < e then first k
      else if k < e + 36 * n then read_pass_line ((k - e) mod 36)
      else 0x00)"


text \<open>
  A host in safe mode whose acknowledgment line is low during the first 52 samples (the
  four tries of each of the 13 erase pentads) and whose chip then answers two pairs of
  read initialisation and byte read.
\<close>

definition host_deaf_erase :: host where
  "host_deaf_erase = host_stuck\<lparr>in_src := chip_line (\<lambda>k. 0x00) 52 2\<rparr>"

section \<open>Auxiliary notions for the erase operation\<close>

text \<open>
  The pentads of one pair \<open>init_read_mode(); read_byte(&c2)\<close> in which every emission
  succeeds: the read-initialisation sequence, which sets the chip to address 0, the read
  command, and the eight pentads that acknowledge the bits. A byte read whose pair shows
  these pentads is the first read after a complete read initialisation.
\<close>

definition read_pass_pentads :: "u8 list" where
  "read_pass_pentads = CMD_READ_INIT @ [CMD_READ, 0, 1, 2, 3, 4, 5, 6, 7]"

text \<open>The bytes that such a pair puts on the output lines of the parallel port.\<close>

definition read_pass_wire :: "u8 list" where
  "read_pass_wire =
     [0x21, 0x31, 0x00, 0x10, 0x00, 0x10, 0x00, 0x10, 0x00, 0x10, 0x0d, 0x1d,
      0x00, 0x10, 0x01, 0x11, 0x02, 0x12, 0x03, 0x13, 0x04, 0x14, 0x05, 0x15, 0x06, 0x16,
      0x07, 0x17]"

text \<open>
  \<open>passes_ok n\<close>: the first \<open>n + 1\<close> pairs succeed, read initialisation and byte read
  alike.
\<close>

definition passes_ok :: "nat \<Rightarrow> u8 \<Rightarrow> host \<Rightarrow> bool" where
  "passes_ok n c2 s =
     list_all (\<lambda>j. erase_init j c2 s = 0 \<and> fst (erase_read j c2 s) = 0) [0..<Suc n]"

text \<open>
  \<open>first_equal_pair k\<close>: the byte reads \<open>k+1\<close> and \<open>k+2\<close> leave the same value in \<open>c2\<close>,
  and no two consecutive earlier ones do. A run in which this holds makes \<open>k + 2\<close> byte
  reads and no more.
\<close>

definition first_equal_pair :: "nat \<Rightarrow> u8 \<Rightarrow> host \<Rightarrow> bool" where
  "first_equal_pair k c2 s =
     (fst (snd (erase_read (Suc k) c2 s)) = fst (snd (erase_read k c2 s))
      \<and> list_all (\<lambda>j. fst (snd (erase_read (Suc j) c2 s)) \<noteq> fst (snd (erase_read j c2 s)))
           [0..<k])"

text \<open>
  The content of \<open>c2\<close> before the \<open>(k+1)\<close>-th byte read of \<open>erase_chip\<close>.
\<close>

definition erase_before :: "nat \<Rightarrow> u8 \<Rightarrow> host \<Rightarrow> u8" where
  "erase_before k c2 s = (case k of 0 \<Rightarrow> c2 | Suc j \<Rightarrow> fst (snd (erase_read j c2 s)))"


section \<open>Lemmas on the signal encoder\<close>

declare safe_mode_check_from.simps [simp del]
declare read_bits.simps [simp del]
declare fw_safe_mode_check_from.simps [simp del]
declare read_stream_loop.simps [simp del]
declare write_stream_loop.simps [simp del]
declare read_loop.simps [simp del]
declare fw_write_loop.simps [simp del]

lemma lt8_cases: "n < 8 \<Longrightarrow> n \<in> {7, 6, 5, 4, 3, 2, 1, 0::nat}"
  by auto

lemma formatted_and_3f: "formatted d AND 0x3f = formatted d"
  by (simp add: formatted_def bit.conj_disj_distrib2 and.assoc)

lemma formatted_or_and_3f: "(formatted d OR 0x10) AND 0x3f = formatted d OR 0x10"
  by (simp add: formatted_def bit.conj_disj_distrib2 and.assoc)

lemma strobe_low_formatted: "strobe_low (formatted d)"
  by (simp add: strobe_low_def formatted_def bit.conj_disj_distrib2 and.assoc)

lemma strobe_high_formatted: "\<not> strobe_low (formatted d OR 0x10)"
  by (simp add: strobe_low_def formatted_def bit.conj_disj_distrib2 and.assoc)

lemma and_0x10_cases: "(d::u8) AND 0x10 = 0 \<or> d AND 0x10 = 0x10"
proof (cases "bit d 4")
  case True
  have "d AND 0x10 = 0x10"
    apply (rule bit_word_eqI)
    subgoal for n using lt8_cases[of n] True by (auto simp: bit_simps)
    done
  then show ?thesis by simp
next
  case False
  have "d AND 0x10 = 0"
    apply (rule bit_word_eqI)
    subgoal for n using lt8_cases[of n] False by (auto simp: bit_simps)
    done
  then show ?thesis by simp
qed

lemma pentad_of_wire_formatted: "pentad_of_wire (formatted d) = d AND 0x1f"
proof -
  have split: "d AND 0x1f = (d AND 0xf) OR (d AND 0x10)"
    by (simp flip: bit.conj_disj_distrib)
  show ?thesis
    using and_0x10_cases[of d]
    by (auto simp: split pentad_of_wire_def formatted_def bit.conj_disj_distrib2 and.assoc)
qed

lemma pentads_of_append: "pentads_of (xs @ ys) = pentads_of xs @ pentads_of ys"
  by (simp add: pentads_of_def)

lemma pentads_of_pair: "pentads_of [formatted d, formatted d OR 0x10] = [d AND 0x1f]"
  by (simp add: pentads_of_def strobe_low_formatted strobe_high_formatted pentad_of_wire_formatted)

lemma pentads_of_single: "pentads_of [formatted d] = [d AND 0x1f]"
  by (simp add: pentads_of_def strobe_low_formatted pentad_of_wire_formatted)

lemma smc_from_shape:
  "snd (safe_mode_check_from t high s) =
     s\<lparr>in_cnt := in_cnt (snd (safe_mode_check_from t high s)),
       slept := slept (snd (safe_mode_check_from t high s))\<rparr>"
proof (induction t high s rule: safe_mode_check_from.induct)
  case (1 tries high s)
  show ?case
  proof (cases "tries < MAX_TRIES")
    case False
    then show ?thesis
      by (subst (1 2 3) safe_mode_check_from.simps) simp
  next
    case True
    note IH = "1.IH"[OF True prod.collapse refl]
    show ?thesis 
      using True IH
      apply (subst (1 2 3) safe_mode_check_from.simps) 
      apply (simp add: host_inb_def usleep_def Let_def)
      done
  qed
qed

lemma smc_shape:
  "snd (safe_mode_check high s) =
     s\<lparr>in_cnt := in_cnt (snd (safe_mode_check high s)),
       slept := slept (snd (safe_mode_check high s))\<rparr>"
  unfolding safe_mode_check_def by (rule smc_from_shape)

lemma smc_fields [simp]:
  "out_log (snd (safe_mode_check high s)) = out_log s"
  "safe_mode (snd (safe_mode_check high s)) = safe_mode s"
  "serial (snd (safe_mode_check high s)) = serial s"
  "in_src (snd (safe_mode_check high s)) = in_src s"
  "tx (snd (safe_mode_check high s)) = tx s"
  "rx (snd (safe_mode_check high s)) = rx s"
  "wr_ok (snd (safe_mode_check high s)) = wr_ok s"
  "wr_cnt (snd (safe_mode_check high s)) = wr_cnt s"
  "fopen_ok (snd (safe_mode_check high s)) = fopen_ok s"
  "file_out (snd (safe_mode_check high s)) = file_out s"
  by (subst smc_shape, simp)+

text \<open>\<open>outp\<close> written with projections instead of tuple patterns.\<close>

lemma outp_unfold:
  "outp d s =
     (let s1 = host_outb (formatted d) s;
          c1 = (if safe_mode s then safe_mode_check True s1 else (0, s1))
      in if fst c1 \<noteq> 0 then (1, snd c1)
         else
           (let s3 = host_outb (formatted d OR 0x10) (snd c1);
                c2 = (if safe_mode s then safe_mode_check False s3 else (0, s3))
            in (if fst c2 \<noteq> 0 then 1 else 0, snd c2)))"
  by (simp add: outp_def Let_def case_prod_beta host_outb_def)

lemma outp_unsafe:
  "\<not> safe_mode s \<Longrightarrow>
     outp d s = (0, s\<lparr>out_log := out_log s @ [formatted d, formatted d OR 0x10]\<rparr>)"
  by (simp add: outp_unfold host_outb_def Let_def formatted_and_3f formatted_or_and_3f)

lemma outp_out_log:
  "out_log (snd (outp d s)) =
     (if safe_mode s \<and> fst (safe_mode_check True (host_outb (formatted d) s)) \<noteq> 0
      then out_log s @ [formatted d]
      else out_log s @ [formatted d, formatted d OR 0x10])"
  by (simp add: outp_unfold host_outb_def Let_def formatted_and_3f formatted_or_and_3f)

lemma outp_fields [simp]:
  "safe_mode (snd (outp d s)) = safe_mode s"
  "serial (snd (outp d s)) = serial s"
  "in_src (snd (outp d s)) = in_src s"
  "tx (snd (outp d s)) = tx s"
  "rx (snd (outp d s)) = rx s"
  "wr_ok (snd (outp d s)) = wr_ok s"
  "wr_cnt (snd (outp d s)) = wr_cnt s"
  "fopen_ok (snd (outp d s)) = fopen_ok s"
  "file_out (snd (outp d s)) = file_out s"
  by (simp_all add: outp_unfold host_outb_def Let_def)

lemma outp_status: "fst (outp d s) = 0 \<or> fst (outp d s) = 1"
  by (simp add: outp_unfold Let_def)

lemma outp_log_ex:
  "\<exists>ys. out_log (snd (outp d s)) = out_log s @ ys \<and> pentads_of ys = [d AND 0x1f]"
  by (simp add: outp_out_log pentads_of_pair pentads_of_single)

lemma outp_repeat_log_ex:
  "\<exists>ys. out_log (outp_repeat n d s) = out_log s @ ys \<and> pentads_of ys = replicate n (d AND 0x1f)"
proof (induction n arbitrary: s)
  case 0
  show ?case by (simp add: pentads_of_def)
next
  case (Suc n)
  obtain ys where ys: "out_log (snd (outp d s)) = out_log s @ ys" "pentads_of ys = [d AND 0x1f]"
    using outp_log_ex by blast
  obtain zs where zs: "out_log (outp_repeat n d (snd (outp d s))) = out_log (snd (outp d s)) @ zs"
      "pentads_of zs = replicate n (d AND 0x1f)"
    using Suc.IH by blast
  show ?case
    using ys zs by (simp add: pentads_of_append)
qed

lemma smc_stuck:
  assumes "\<forall>k<4. (in_src s (in_cnt s + k) AND MASK_CHIP_ERR \<noteq> 0) \<noteq> high"
  shows "safe_mode_check high s =
     (1, s\<lparr>in_cnt := in_cnt s + 4, slept := slept s @ [125, 250, 500, 1000]\<rparr>)"
proof -
  have a: "(in_src s (in_cnt s) AND MASK_CHIP_ERR \<noteq> 0) \<noteq> high"
    "(in_src s (Suc (in_cnt s)) AND MASK_CHIP_ERR \<noteq> 0) \<noteq> high"
    "(in_src s (Suc (Suc (in_cnt s))) AND MASK_CHIP_ERR \<noteq> 0) \<noteq> high"
    "(in_src s (Suc (Suc (Suc (in_cnt s)))) AND MASK_CHIP_ERR \<noteq> 0) \<noteq> high"
    using assms[rule_format, of 0] assms[rule_format, of 1] assms[rule_format, of 2] assms[rule_format, of 3]
    by (simp_all add: numeral_2_eq_2 numeral_3_eq_3)
  show ?thesis
    unfolding safe_mode_check_def
    apply (subst safe_mode_check_from.simps)
    apply (subst safe_mode_check_from.simps)
    apply (subst safe_mode_check_from.simps)
    apply (subst safe_mode_check_from.simps)
    apply (subst safe_mode_check_from.simps)
    using a
    apply (cases high)
    apply (simp_all add: MAX_TRIES_def host_inb_def usleep_def Let_def)
    done
qed

lemma fw_smc_stuck:
  assumes "\<forall>k<4. err_src f (err_cnt f + k) \<noteq> check_high"
  shows "fw_safe_mode_check check_high f =
     (1, f\<lparr>err_cnt := err_cnt f + 4, delays := delays f @ [1, 1, 1, 1]\<rparr>)"
proof -
  have a: "err_src f (err_cnt f) \<noteq> check_high"
    "err_src f (Suc (err_cnt f)) \<noteq> check_high"
    "err_src f (Suc (Suc (err_cnt f))) \<noteq> check_high"
    "err_src f (Suc (Suc (Suc (err_cnt f)))) \<noteq> check_high"
    using assms[rule_format, of 0] assms[rule_format, of 1] assms[rule_format, of 2] assms[rule_format, of 3]
    by (simp_all add: numeral_2_eq_2 numeral_3_eq_3)
  show ?thesis
    unfolding fw_safe_mode_check_def
    apply (subst fw_safe_mode_check_from.simps)
    apply (subst fw_safe_mode_check_from.simps)
    apply (subst fw_safe_mode_check_from.simps)
    apply (subst fw_safe_mode_check_from.simps)
    apply (subst fw_safe_mode_check_from.simps)
    using a
    apply (cases check_high)
    apply (simp_all add: MAX_TRIES_def digitalRead_ERR_def delay_def Let_def)
    done
qed

section \<open>Lemmas on the host's write\<close>

lemma lt32_cases:
  "n < 32 \<Longrightarrow> n \<in> {31, 30, 29, 28, 27, 26, 25, 24, 23, 22, 21, 20, 19, 18, 17, 16,
     15, 14, 13, 12, 11, 10, 9, 8, 7, 6, 5, 4, 3, 2, 1, 0::nat}"
  by simp arith

lemma address_bits_roundtrip:
  fixes a :: u32 and data :: u8
  shows "push_bit 15 (ucast (((ucast (ucast (drop_bit 3 data AND 0x1c) OR drop_bit 15 (a AND 0x1ffff)) :: u8) AND 0x1f) AND 0x3))
      OR push_bit 10 (ucast ((ucast (drop_bit 10 (a AND 0x1ffff)) :: u8) AND 0x1f))
      OR push_bit 5 (ucast ((ucast (drop_bit 5 (a AND 0x1ffff)) :: u8) AND 0x1f))
      OR ucast ((ucast (a AND 0x1ffff) :: u8) AND 0x1f) = a AND 0x1ffff"
proof (rule bit_word_eqI)
  fix n assume "n < LENGTH(32)"
  then have "n \<in> {31, 30, 29, 28, 27, 26, 25, 24, 23, 22, 21, 20, 19, 18, 17, 16,
     15, 14, 13, 12, 11, 10, 9, 8, 7, 6, 5, 4, 3, 2, 1, 0::nat}"
    using lt32_cases[of n] by simp
  then show "bit (push_bit 15 (ucast (((ucast (ucast (drop_bit 3 data AND 0x1c) OR drop_bit 15 (a AND 0x1ffff)) :: u8) AND 0x1f) AND 0x3))
      OR push_bit 10 (ucast ((ucast (drop_bit 10 (a AND 0x1ffff)) :: u8) AND 0x1f))
      OR push_bit 5 (ucast ((ucast (drop_bit 5 (a AND 0x1ffff)) :: u8) AND 0x1f))
      OR ucast ((ucast (a AND 0x1ffff) :: u8) AND 0x1f) :: u32) n = bit (a AND 0x1ffff) n"
    apply (simp only: insert_iff empty_iff)
    apply (elim disjE FalseE; simp add: bit_simps)
    done
qed

lemma outp_log_step:
  assumes "out_log s1 = out_log s @ xs"
  shows "\<exists>ys. out_log (snd (outp d s1)) = out_log s @ ys \<and> pentads_of ys = pentads_of xs @ [d AND 0x1f]"
proof -
  obtain zs where "out_log (snd (outp d s1)) = out_log s1 @ zs" "pentads_of zs = [d AND 0x1f]"
    using outp_log_ex by blast
  with assms show ?thesis by (simp add: pentads_of_append)
qed

lemma outp_repeat_log_step:
  assumes "out_log s1 = out_log s @ xs"
  shows "\<exists>ys. out_log (outp_repeat n d s1) = out_log s @ ys
            \<and> pentads_of ys = pentads_of xs @ replicate n (d AND 0x1f)"
proof -
  obtain zs where "out_log (outp_repeat n d s1) = out_log s1 @ zs"
      "pentads_of zs = replicate n (d AND 0x1f)"
    using outp_repeat_log_ex by blast
  with assms show ?thesis by (simp add: pentads_of_append)
qed

lemma write_byte_ok_state:
  assumes "data \<noteq> 0xff" and "fst (write_byte data address s) = 0"
  shows "snd (write_byte data address s) =
     outp_repeat 4 data
      (snd (outp (ucast (address AND 0x1ffff))
      (snd (outp (ucast (drop_bit 5 (address AND 0x1ffff)))
      (snd (outp (ucast (drop_bit 10 (address AND 0x1ffff)))
      (snd (outp (ucast (ucast (drop_bit 3 data AND 0x1c) OR drop_bit 15 (address AND 0x1ffff)))
      (snd (outp CMD_WRITE_BYTE s))))))))))"
  using assms by (simp add: write_byte_def Let_def case_prod_beta split: if_splits)

lemma write_byte_ok_pentads:
  assumes "data \<noteq> 0xff" and "fst (write_byte data address s) = 0"
  shows "pentads_of (emitted s (snd (write_byte data address s))) =
     [CMD_WRITE_BYTE AND 0x1f,
      ucast (ucast (drop_bit 3 data AND 0x1c) OR drop_bit 15 (address AND 0x1ffff)) AND 0x1f,
      ucast (drop_bit 10 (address AND 0x1ffff)) AND 0x1f,
      ucast (drop_bit 5 (address AND 0x1ffff)) AND 0x1f,
      ucast (address AND 0x1ffff) AND 0x1f,
      data AND 0x1f, data AND 0x1f, data AND 0x1f, data AND 0x1f]"
proof -
  let ?a = "address AND 0x1ffff"
  let ?s0 = "snd (outp CMD_WRITE_BYTE s)"
  let ?s1 = "snd (outp (ucast (ucast (drop_bit 3 data AND 0x1c) OR drop_bit 15 ?a)) ?s0)"
  let ?s2 = "snd (outp (ucast (drop_bit 10 ?a)) ?s1)"
  let ?s3 = "snd (outp (ucast (drop_bit 5 ?a)) ?s2)"
  let ?s4 = "snd (outp (ucast ?a) ?s3)"
  obtain y0 where y0: "out_log ?s0 = out_log s @ y0"
    "pentads_of y0 = [CMD_WRITE_BYTE AND 0x1f]"
    using outp_log_ex[of CMD_WRITE_BYTE s] by blast
  from outp_log_step[OF y0(1)] obtain y1 where y1: "out_log ?s1 = out_log s @ y1"
    "pentads_of y1 = pentads_of y0 @ [ucast (ucast (drop_bit 3 data AND 0x1c) OR drop_bit 15 ?a) AND 0x1f]"
    by blast
  from outp_log_step[OF y1(1)] obtain y2 where y2: "out_log ?s2 = out_log s @ y2"
    "pentads_of y2 = pentads_of y1 @ [ucast (drop_bit 10 ?a) AND 0x1f]"
    by blast
  from outp_log_step[OF y2(1)] obtain y3 where y3: "out_log ?s3 = out_log s @ y3"
    "pentads_of y3 = pentads_of y2 @ [ucast (drop_bit 5 ?a) AND 0x1f]"
    by blast
  from outp_log_step[OF y3(1)] obtain y4 where y4: "out_log ?s4 = out_log s @ y4"
    "pentads_of y4 = pentads_of y3 @ [ucast ?a AND 0x1f]"
    by blast
  from outp_repeat_log_step[OF y4(1)] obtain y5 where y5:
    "out_log (outp_repeat 4 data ?s4) = out_log s @ y5"
    "pentads_of y5 = pentads_of y4 @ replicate 4 (data AND 0x1f)"
    by blast
  have "emitted s (snd (write_byte data address s)) = y5"
    unfolding write_byte_ok_state[OF assms] emitted_def y5(1) by simp
  then show ?thesis
    by (simp add: y5(2) y4(2) y3(2) y2(2) y1(2) y0(2) numeral_eq_Suc)
qed

section \<open>Lemmas on the firmware's write\<close>

lemma drop_push_portd:
  fixes x p :: u8
  shows "drop_bit 2 (push_bit 2 x OR (p AND 0x3)) = x AND 0x3f"
proof (rule bit_word_eqI)
  fix n assume "n < LENGTH(8)"
  then have "n \<in> {7, 6, 5, 4, 3, 2, 1, 0::nat}"
    using lt8_cases[of n] by simp
  then show "bit (drop_bit 2 (push_bit 2 x OR (p AND 0x3))) n = bit (x AND 0x3f) n"
    apply (simp only: insert_iff empty_iff)
    apply (elim disjE FalseE; simp add: bit_simps)
    done
qed

lemma drop_push2:
  fixes x :: u8
  shows "drop_bit 2 (push_bit 2 x) = x AND 0x3f"
  using drop_push_portd[of x 0] by simp

lemma le_0x1ffff:
  fixes a :: u32
  assumes "a \<le> 0x1ffff"
  shows "a AND 0x1ffff = a"
proof -
  have "a < 2 ^ 17"
    using assms by (simp add: word_le_nat_alt word_less_nat_alt)
  then have "a AND mask 17 = a"
    by (rule less_mask_eq)
  then show ?thesis
    by (simp add: mask_eq_exp_minus_1)
qed

lemma fw_smc_from_shape:
  "snd (fw_safe_mode_check_from t high f) =
     f\<lparr>err_cnt := err_cnt (snd (fw_safe_mode_check_from t high f)),
       delays := delays (snd (fw_safe_mode_check_from t high f))\<rparr>"
proof (induction t high f rule: fw_safe_mode_check_from.induct)
  case (1 tries high f)
  show ?case
  proof (cases "tries < MAX_TRIES")
    case False
    then show ?thesis
      by (subst (1 2 3) fw_safe_mode_check_from.simps) simp
  next
    case True
    note IH = "1.IH"[OF True prod.collapse]
    show ?thesis
      using True IH
      apply (subst (1 2 3) fw_safe_mode_check_from.simps)
      apply (simp add: digitalRead_ERR_def delay_def Let_def)
      done
  qed
qed

lemma fw_smc_shape:
  "snd (fw_safe_mode_check high f) =
     f\<lparr>err_cnt := err_cnt (snd (fw_safe_mode_check high f)),
       delays := delays (snd (fw_safe_mode_check high f))\<rparr>"
  unfolding fw_safe_mode_check_def by (rule fw_smc_from_shape)

lemma fw_smc_fields [simp]:
  "portd (snd (fw_safe_mode_check high f)) = portd f"
  "portd_log (snd (fw_safe_mode_check high f)) = portd_log f"
  "err_src (snd (fw_safe_mode_check high f)) = err_src f"
  "ser_in (snd (fw_safe_mode_check high f)) = ser_in f"
  "ser_out (snd (fw_safe_mode_check high f)) = ser_out f"
  by (subst fw_smc_shape, simp)+

lemma fw_outp_unfold:
  "fw_outp d f =
     (let f1 = fw_outb (formatted d) f;
          c1 = fw_safe_mode_check True f1
      in if fst c1 \<noteq> 0 then (1, snd c1)
         else
           (let f3 = fw_outb (formatted d OR 0x10) (snd c1);
                c2 = fw_safe_mode_check False f3
            in (if fst c2 \<noteq> 0 then 1 else 0, snd c2)))"
  by (simp add: fw_outp_def Let_def case_prod_beta)

lemma fw_outp_fields [simp]:
  "err_src (snd (fw_outp d f)) = err_src f"
  "ser_in (snd (fw_outp d f)) = ser_in f"
  "ser_out (snd (fw_outp d f)) = ser_out f"
  by (simp_all add: fw_outp_unfold fw_outb_def Let_def)

lemma fw_outp_portd_log:
  "\<exists>p q. portd_log (snd (fw_outp d f)) =
     (if fst (fw_safe_mode_check True (fw_outb (formatted d) f)) \<noteq> 0
      then portd_log f @ [push_bit 2 (formatted d) OR (p AND 0x3)]
      else portd_log f @ [push_bit 2 (formatted d) OR (p AND 0x3),
                          push_bit 2 (formatted d OR 0x10) OR (q AND 0x3)])"
  by (simp add: fw_outp_unfold fw_outb_def Let_def) blast

lemma fw_pentads_of_append: "fw_pentads_of (xs @ ys) = fw_pentads_of xs @ fw_pentads_of ys"
  by (simp add: fw_pentads_of_def pentads_of_append)

lemma fw_outp_log_ex:
  "\<exists>ys. portd_log (snd (fw_outp d f)) = portd_log f @ ys \<and> fw_pentads_of ys = [d AND 0x1f]"
proof -
  obtain p q where pq: "portd_log (snd (fw_outp d f)) =
     (if fst (fw_safe_mode_check True (fw_outb (formatted d) f)) \<noteq> 0
      then portd_log f @ [push_bit 2 (formatted d) OR (p AND 0x3)]
      else portd_log f @ [push_bit 2 (formatted d) OR (p AND 0x3),
                          push_bit 2 (formatted d OR 0x10) OR (q AND 0x3)])"
    using fw_outp_portd_log by blast
  show ?thesis
    unfolding pq
    by (simp add: fw_pentads_of_def drop_push2 formatted_and_3f formatted_or_and_3f
        pentads_of_pair pentads_of_single)
qed

lemma fw_outp_repeat_log_ex:
  "\<exists>ys. portd_log (fw_outp_repeat n d f) = portd_log f @ ys
        \<and> fw_pentads_of ys = replicate n (d AND 0x1f)"
proof (induction n arbitrary: f)
  case 0
  show ?case by (simp add: fw_pentads_of_def pentads_of_def)
next
  case (Suc n)
  obtain ys where ys: "portd_log (snd (fw_outp d f)) = portd_log f @ ys"
      "fw_pentads_of ys = [d AND 0x1f]"
    using fw_outp_log_ex by blast
  obtain zs where zs:
      "portd_log (fw_outp_repeat n d (snd (fw_outp d f))) = portd_log (snd (fw_outp d f)) @ zs"
      "fw_pentads_of zs = replicate n (d AND 0x1f)"
    using Suc.IH by blast
  show ?case
    using ys zs by (simp add: fw_pentads_of_append)
qed

lemma fw_outp_log_step:
  assumes "portd_log f1 = portd_log f @ xs"
  shows "\<exists>ys. portd_log (snd (fw_outp d f1)) = portd_log f @ ys
            \<and> fw_pentads_of ys = fw_pentads_of xs @ [d AND 0x1f]"
proof -
  obtain zs where "portd_log (snd (fw_outp d f1)) = portd_log f1 @ zs"
      "fw_pentads_of zs = [d AND 0x1f]"
    using fw_outp_log_ex by blast
  with assms show ?thesis by (simp add: fw_pentads_of_append)
qed

lemma fw_outp_repeat_log_step:
  assumes "portd_log f1 = portd_log f @ xs"
  shows "\<exists>ys. portd_log (fw_outp_repeat n d f1) = portd_log f @ ys
            \<and> fw_pentads_of ys = fw_pentads_of xs @ replicate n (d AND 0x1f)"
proof -
  obtain zs where "portd_log (fw_outp_repeat n d f1) = portd_log f1 @ zs"
      "fw_pentads_of zs = replicate n (d AND 0x1f)"
    using fw_outp_repeat_log_ex by blast
  with assms show ?thesis by (simp add: fw_pentads_of_append)
qed

lemma fw_write_byte_ok_state:
  assumes "data \<noteq> 0xff" and "fst (fw_write_byte address data f) = 0"
  shows "snd (fw_write_byte address data f) =
     fw_outp_repeat 4 data
      (snd (fw_outp (ucast address)
      (snd (fw_outp (ucast (drop_bit 5 address))
      (snd (fw_outp (ucast (drop_bit 10 address))
      (snd (fw_outp (ucast (ucast (drop_bit 3 data AND 0x1c) OR drop_bit 15 address))
      (snd (fw_outp CMD_WRITE_BYTE f))))))))))"
  using assms by (simp add: fw_write_byte_def Let_def case_prod_beta split: if_splits)

lemma fw_write_byte_ok_pentads:
  assumes "data \<noteq> 0xff" and "fst (fw_write_byte address data f) = 0"
  shows "fw_pentads_of (fw_emitted f (snd (fw_write_byte address data f))) =
     [CMD_WRITE_BYTE AND 0x1f,
      ucast (ucast (drop_bit 3 data AND 0x1c) OR drop_bit 15 address) AND 0x1f,
      ucast (drop_bit 10 address) AND 0x1f,
      ucast (drop_bit 5 address) AND 0x1f,
      ucast address AND 0x1f,
      data AND 0x1f, data AND 0x1f, data AND 0x1f, data AND 0x1f]"
proof -
  let ?f0 = "snd (fw_outp CMD_WRITE_BYTE f)"
  let ?f1 = "snd (fw_outp (ucast (ucast (drop_bit 3 data AND 0x1c) OR drop_bit 15 address)) ?f0)"
  let ?f2 = "snd (fw_outp (ucast (drop_bit 10 address)) ?f1)"
  let ?f3 = "snd (fw_outp (ucast (drop_bit 5 address)) ?f2)"
  let ?f4 = "snd (fw_outp (ucast address) ?f3)"
  obtain y0 where y0: "portd_log ?f0 = portd_log f @ y0"
    "fw_pentads_of y0 = [CMD_WRITE_BYTE AND 0x1f]"
    using fw_outp_log_ex[of CMD_WRITE_BYTE f] by blast
  from fw_outp_log_step[OF y0(1)] obtain y1 where y1: "portd_log ?f1 = portd_log f @ y1"
    "fw_pentads_of y1 = fw_pentads_of y0 @ [ucast (ucast (drop_bit 3 data AND 0x1c) OR drop_bit 15 address) AND 0x1f]"
    by blast
  from fw_outp_log_step[OF y1(1)] obtain y2 where y2: "portd_log ?f2 = portd_log f @ y2"
    "fw_pentads_of y2 = fw_pentads_of y1 @ [ucast (drop_bit 10 address) AND 0x1f]"
    by blast
  from fw_outp_log_step[OF y2(1)] obtain y3 where y3: "portd_log ?f3 = portd_log f @ y3"
    "fw_pentads_of y3 = fw_pentads_of y2 @ [ucast (drop_bit 5 address) AND 0x1f]"
    by blast
  from fw_outp_log_step[OF y3(1)] obtain y4 where y4: "portd_log ?f4 = portd_log f @ y4"
    "fw_pentads_of y4 = fw_pentads_of y3 @ [ucast address AND 0x1f]"
    by blast
  from fw_outp_repeat_log_step[OF y4(1)] obtain y5 where y5:
    "portd_log (fw_outp_repeat 4 data ?f4) = portd_log f @ y5"
    "fw_pentads_of y5 = fw_pentads_of y4 @ replicate 4 (data AND 0x1f)"
    by blast
  have "fw_emitted f (snd (fw_write_byte address data f)) = y5"
    unfolding fw_write_byte_ok_state[OF assms] fw_emitted_def y5(1) by simp
  then show ?thesis
    by (simp add: y5(2) y4(2) y3(2) y2(2) y1(2) y0(2) numeral_eq_Suc)
qed

section \<open>Lemmas on a chip that answers at once\<close>

lemma smc_first_sample:
  assumes "(in_src s (in_cnt s) AND MASK_CHIP_ERR \<noteq> 0) = high"
  shows "safe_mode_check high s = (0, s\<lparr>in_cnt := Suc (in_cnt s)\<rparr>)"
  unfolding safe_mode_check_def
  apply (subst safe_mode_check_from.simps)
  using assms
  apply (cases high)
  apply (simp_all add: MAX_TRIES_def host_inb_def Let_def)
  done

lemma fw_smc_first_sample:
  assumes "err_src f (err_cnt f) = check_high"
  shows "fw_safe_mode_check check_high f = (0, f\<lparr>err_cnt := Suc (err_cnt f)\<rparr>)"
  unfolding fw_safe_mode_check_def
  apply (subst fw_safe_mode_check_from.simps)
  using assms
  apply (cases check_high)
  apply (simp_all add: MAX_TRIES_def digitalRead_ERR_def Let_def)
  done

lemma outp_prompt:
  assumes "chip_prompt s"
  shows "outp d s =
     (0, s\<lparr>out_log := out_log s @ [formatted d, formatted d OR 0x10],
            in_cnt := (if safe_mode s then in_cnt s + 2 else in_cnt s)\<rparr>)"
proof (cases "safe_mode s")
  case False
  then show ?thesis by (simp add: outp_unsafe)
next
  case True
  have a: "in_src s (in_cnt s) AND MASK_CHIP_ERR \<noteq> 0"
    using assms[unfolded chip_prompt_def, rule_format, of 0] by simp
  have b: "in_src s (Suc (in_cnt s)) AND MASK_CHIP_ERR = 0"
    using assms[unfolded chip_prompt_def, rule_format, of 1] by simp
  let ?s1 = "host_outb (formatted d) s"
  have c1: "safe_mode_check True ?s1 = (0, ?s1\<lparr>in_cnt := Suc (in_cnt ?s1)\<rparr>)"
    by (rule smc_first_sample) (simp add: host_outb_def a)
  let ?s3 = "host_outb (formatted d OR 0x10) (?s1\<lparr>in_cnt := Suc (in_cnt ?s1)\<rparr>)"
  have c2: "safe_mode_check False ?s3 = (0, ?s3\<lparr>in_cnt := Suc (in_cnt ?s3)\<rparr>)"
    by (rule smc_first_sample) (simp add: host_outb_def b)
  show ?thesis
    unfolding outp_unfold Let_def
    using True
    by (simp add: c1 c2) (simp add: host_outb_def formatted_and_3f formatted_or_and_3f)
qed

lemma outp_prompt_simps:
  assumes "chip_prompt s"
  shows "fst (outp d s) = 0" and "chip_prompt (snd (outp d s))"
proof -
  show "fst (outp d s) = 0"
    by (simp add: outp_prompt[OF assms])
  have "(in_src s (in_cnt s + Suc (Suc k)) AND MASK_CHIP_ERR \<noteq> 0) = even k" for k
    using assms[unfolded chip_prompt_def, rule_format, of "Suc (Suc k)"] by simp
  then show "chip_prompt (snd (outp d s))"
    using assms by (simp add: outp_prompt[OF assms] chip_prompt_def)
qed

lemma outp_repeat_prompt:
  "chip_prompt s \<Longrightarrow> chip_prompt (outp_repeat n d s)"
  by (induction n arbitrary: s) (simp_all add: outp_prompt_simps)

lemma write_byte_prompt:
  assumes "chip_prompt s"
  shows "fst (write_byte data address s) = 0" and "chip_prompt (snd (write_byte data address s))"
  using assms
  by (simp_all add: write_byte_def Let_def case_prod_beta outp_prompt_simps outp_repeat_prompt)

lemma chip_prompt_host_prompt: "chip_prompt host_prompt"
  by (simp add: chip_prompt_def host_prompt_def host_stuck_def MASK_CHIP_ERR_def)

lemma portd_low_bits:
  fixes x p :: u8
  shows "(push_bit 2 x OR (p AND 0x3)) AND 0x3 = p AND 0x3"
proof (rule bit_word_eqI)
  fix n assume "n < LENGTH(8)"
  then have "n \<in> {7, 6, 5, 4, 3, 2, 1, 0::nat}"
    using lt8_cases[of n] by simp
  then show "bit ((push_bit 2 x OR (p AND 0x3)) AND 0x3) n = bit (p AND 0x3) n"
    apply (simp only: insert_iff empty_iff)
    apply (elim disjE FalseE; simp add: bit_simps)
    done
qed

lemma fw_outp_prompt:
  assumes "fw_chip_prompt f"
  shows "fw_outp d f =
     (0, f\<lparr>portd := push_bit 2 (formatted d OR 0x10) OR (portd f AND 0x3),
            portd_log := portd_log f @ [push_bit 2 (formatted d) OR (portd f AND 0x3),
                                        push_bit 2 (formatted d OR 0x10) OR (portd f AND 0x3)],
            err_cnt := err_cnt f + 2\<rparr>)"
proof -
  have a: "err_src f (err_cnt f)"
    using assms[unfolded fw_chip_prompt_def, rule_format, of 0] by simp
  have b: "\<not> err_src f (Suc (err_cnt f))"
    using assms[unfolded fw_chip_prompt_def, rule_format, of 1] by simp
  let ?f1 = "fw_outb (formatted d) f"
  have c1: "fw_safe_mode_check True ?f1 = (0, ?f1\<lparr>err_cnt := Suc (err_cnt ?f1)\<rparr>)"
    by (rule fw_smc_first_sample) (simp add: fw_outb_def Let_def a)
  let ?f3 = "fw_outb (formatted d OR 0x10) (?f1\<lparr>err_cnt := Suc (err_cnt ?f1)\<rparr>)"
  have c2: "fw_safe_mode_check False ?f3 = (0, ?f3\<lparr>err_cnt := Suc (err_cnt ?f3)\<rparr>)"
    by (rule fw_smc_first_sample) (simp add: fw_outb_def Let_def b)
  have low: "(push_bit 2 (formatted d) OR (portd f AND 0x3)) AND 0x3 = portd f AND 0x3"
    by (rule portd_low_bits)
  show ?thesis
    unfolding fw_outp_unfold Let_def
    by (simp add: c1 c2) (simp add: fw_outb_def Let_def low)
qed

lemma fw_outp_prompt_simps:
  assumes "fw_chip_prompt f"
  shows "fst (fw_outp d f) = 0" and "fw_chip_prompt (snd (fw_outp d f))"
proof -
  show "fst (fw_outp d f) = 0"
    by (simp add: fw_outp_prompt[OF assms])
  have "err_src f (err_cnt f + Suc (Suc k)) = even k" for k
    using assms[unfolded fw_chip_prompt_def, rule_format, of "Suc (Suc k)"] by simp
  then show "fw_chip_prompt (snd (fw_outp d f))"
    by (simp add: fw_outp_prompt[OF assms] fw_chip_prompt_def)
qed

lemma fw_outp_repeat_prompt:
  "fw_chip_prompt f \<Longrightarrow> fw_chip_prompt (fw_outp_repeat n d f)"
  by (induction n arbitrary: f) (simp_all add: fw_outp_prompt_simps)

lemma fw_outp_repeat_fields [simp]:
  "ser_in (fw_outp_repeat n d f) = ser_in f"
  "ser_out (fw_outp_repeat n d f) = ser_out f"
  by (induction n arbitrary: f) simp_all

lemma fw_write_byte_fields [simp]:
  "ser_in (snd (fw_write_byte address data f)) = ser_in f"
  "ser_out (snd (fw_write_byte address data f)) = ser_out f"
  by (simp_all add: fw_write_byte_def Let_def case_prod_beta)

lemma fw_write_byte_prompt:
  assumes "fw_chip_prompt f"
  shows "fst (fw_write_byte address data f) = 0"
    and "fw_chip_prompt (snd (fw_write_byte address data f))"
  using assms
  by (simp_all add: fw_write_byte_def Let_def case_prod_beta fw_outp_prompt_simps
      fw_outp_repeat_prompt)

lemma fw_chip_prompt_fw_prompt: "fw_chip_prompt fw_prompt"
  by (simp add: fw_chip_prompt_def fw_prompt_def fw_stuck_def)

section \<open>Lemmas on single emissions in safe mode\<close>

lemma outp_acked:
  assumes "safe_mode s"
    and "in_src s (in_cnt s) AND MASK_CHIP_ERR \<noteq> 0"
    and "in_src s (Suc (in_cnt s)) AND MASK_CHIP_ERR = 0"
  shows "outp d s =
     (0, s\<lparr>out_log := out_log s @ [formatted d, formatted d OR 0x10],
            in_cnt := in_cnt s + 2\<rparr>)"
proof -
  let ?s1 = "host_outb (formatted d) s"
  have c1: "safe_mode_check True ?s1 = (0, ?s1\<lparr>in_cnt := Suc (in_cnt ?s1)\<rparr>)"
    by (rule smc_first_sample) (simp add: host_outb_def assms)
  let ?s3 = "host_outb (formatted d OR 0x10) (?s1\<lparr>in_cnt := Suc (in_cnt ?s1)\<rparr>)"
  have c2: "safe_mode_check False ?s3 = (0, ?s3\<lparr>in_cnt := Suc (in_cnt ?s3)\<rparr>)"
    by (rule smc_first_sample) (simp add: host_outb_def assms)
  show ?thesis
    unfolding outp_unfold Let_def
    using assms(1)
    by (simp add: c1 c2) (simp add: host_outb_def formatted_and_3f formatted_or_and_3f)
qed

lemma outp_stuck:
  assumes "safe_mode s"
    and "\<forall>k<4. in_src s (in_cnt s + k) AND MASK_CHIP_ERR = 0"
  shows "outp d s =
     (1, s\<lparr>out_log := out_log s @ [formatted d], in_cnt := in_cnt s + 4,
            slept := slept s @ [125, 250, 500, 1000]\<rparr>)"
proof -
  let ?s1 = "host_outb (formatted d) s"
  have "\<forall>k<4. (in_src ?s1 (in_cnt ?s1 + k) AND MASK_CHIP_ERR \<noteq> 0) \<noteq> True"
    using assms(2) by (simp add: host_outb_def)
  then have c1: "safe_mode_check True ?s1 =
      (1, ?s1\<lparr>in_cnt := in_cnt ?s1 + 4, slept := slept ?s1 @ [125, 250, 500, 1000]\<rparr>)"
    by (rule smc_stuck)
  show ?thesis
    unfolding outp_unfold Let_def
    using assms(1)
    by (simp add: c1) (simp add: host_outb_def formatted_and_3f)
qed

lemma outp_stuck4:
  assumes "safe_mode s"
    and "in_src s (in_cnt s) AND MASK_CHIP_ERR = 0"
    and "in_src s (in_cnt s + 1) AND MASK_CHIP_ERR = 0"
    and "in_src s (in_cnt s + 2) AND MASK_CHIP_ERR = 0"
    and "in_src s (in_cnt s + 3) AND MASK_CHIP_ERR = 0"
  shows "outp d s =
     (1, s\<lparr>out_log := out_log s @ [formatted d], in_cnt := in_cnt s + 4,
            slept := slept s @ [125, 250, 500, 1000]\<rparr>)"
proof (rule outp_stuck[OF assms(1)], intro allI impI)
  fix k :: nat assume "k < 4"
  then have "k = 0 \<or> k = 1 \<or> k = 2 \<or> k = 3"
    by arith
  then show "in_src s (in_cnt s + k) AND MASK_CHIP_ERR = 0"
    using assms(2-5) by auto
qed

lemma outp_repeat_4:
  "outp_repeat 4 d s = snd (outp d (snd (outp d (snd (outp d (snd (outp d s)))))))"
  by (simp add: numeral_eq_Suc)

section \<open>Lemmas on the stream frame\<close>

lemma le_0x20000:
  fixes n :: u32
  assumes "n \<le> 0x20000"
  shows "n AND 0x3ffff = n"
proof -
  have "n < 2 ^ 18"
    using assms by (simp add: word_le_nat_alt word_less_nat_alt)
  then have "n AND mask 18 = n"
    by (rule less_mask_eq)
  then show ?thesis
    by (simp add: mask_eq_exp_minus_1)
qed

lemma read_size_masked:
  assumes "tag = 0x80 \<or> tag = 0xc0"
  shows "fst (fw_read_size (hd (stream_cmd tag (x AND 0x3ffff)))
            (f\<lparr>ser_in := tl (stream_cmd tag (x AND 0x3ffff)) @ rest\<rparr>)) = x AND 0x3ffff"
proof -
  have "push_bit 16 (ucast ((ucast (ucast tag OR drop_bit 16 (x AND 0x3ffff)) :: u8) AND 0x3f))
        OR push_bit 8 (ucast (ucast (drop_bit 8 (x AND 0x3ffff) AND 0xff) :: u8))
        OR ucast (ucast ((x AND 0x3ffff) AND 0xff) :: u8) = x AND 0x3ffff"
  proof (rule bit_word_eqI)
    fix n assume "n < LENGTH(32)"
    then have "n \<in> {31, 30, 29, 28, 27, 26, 25, 24, 23, 22, 21, 20, 19, 18, 17, 16,
       15, 14, 13, 12, 11, 10, 9, 8, 7, 6, 5, 4, 3, 2, 1, 0::nat}"
      using lt32_cases[of n] by simp
    then show "bit (push_bit 16 (ucast ((ucast (ucast tag OR drop_bit 16 (x AND 0x3ffff)) :: u8) AND 0x3f))
        OR push_bit 8 (ucast (ucast (drop_bit 8 (x AND 0x3ffff) AND 0xff) :: u8))
        OR ucast (ucast ((x AND 0x3ffff) AND 0xff) :: u8) :: u32) n = bit (x AND 0x3ffff) n"
      using assms
      apply (simp only: insert_iff empty_iff)
      apply (elim disjE FalseE; simp add: bit_simps)
      done
  qed
  then show ?thesis
    unfolding stream_cmd_def fw_read_size_def Let_def
    by (simp del: push_bit_and drop_bit_and)
qed

section \<open>Lemmas on the read operation\<close>

lemma outp_chain_fields [simp]:
  "safe_mode (snd (outp_chain ds s)) = safe_mode s"
  "serial (snd (outp_chain ds s)) = serial s"
  "in_src (snd (outp_chain ds s)) = in_src s"
  "tx (snd (outp_chain ds s)) = tx s"
  "rx (snd (outp_chain ds s)) = rx s"
  "wr_ok (snd (outp_chain ds s)) = wr_ok s"
  "wr_cnt (snd (outp_chain ds s)) = wr_cnt s"
  "fopen_ok (snd (outp_chain ds s)) = fopen_ok s"
  "file_out (snd (outp_chain ds s)) = file_out s"
  by (induction ds arbitrary: s; simp add: case_prod_beta)+

lemma outp_chain_prompt:
  assumes "chip_prompt s"
  shows "fst (outp_chain ds s) = 0" and "chip_prompt (snd (outp_chain ds s))"
  using assms
  by (induction ds arbitrary: s; simp add: case_prod_beta outp_prompt_simps)+

lemma chip_prompt_bridge_silent: "chip_prompt host_bridge_silent"
  by (simp add: chip_prompt_def host_bridge_silent_def host_prompt_def host_stuck_def
      MASK_CHIP_ERR_def)

lemma read_stream_timeout:
  assumes "rx s = []" and "wr_ok s (wr_cnt s)" and "0 < sz"
  shows "fst (serial_read_byte_stream buf sz s) = 1"
  using assms
  by (simp add: serial_read_byte_stream_def serial_write_def read_stream_loop.simps
      serial_wait_data_def word_gt_0)

section \<open>Lemmas on a streaming write of 61 bytes\<close>

lemma write_stream_loop_done:
  "\<not> i < data_sz \<Longrightarrow> write_stream_loop i data data_sz s = (0, s)"
  by (subst write_stream_loop.simps) simp

lemma write_stream_loop_last:
  assumes len: "length data = 61"
    and wr: "\<forall>k. wr_ok s k"
    and acks: "rx s = [Avail [a2]]"
  shows "write_stream_loop 60 data 61 s =
     (if a2 = 60 then 0 else 1,
      s\<lparr>tx := tx s @ [data ! 60] @ replicate 59 0, wr_cnt := wr_cnt s + 2, rx := []\<rparr>)"
proof -
  have "data ! 60 # drop (Suc 60) data = drop 60 data"
    using len by (intro Cons_nth_drop_Suc) simp
  moreover have "drop (Suc 60) data = []"
    using len by simp
  ultimately have d60: "drop 60 data = [data ! 60]"
    by simp
  show ?thesis
    by (subst write_stream_loop.simps)
      (simp add: serial_write_def wr acks serial_wait_data_def serial_read_def Let_def d60
        write_stream_loop_done)
qed

lemma write_stream_loop_first:
  assumes len: "length data = 61"
    and wr: "\<forall>k. wr_ok s k"
    and acks: "rx s = [Avail [a1], Avail [a2]]"
  shows "write_stream_loop 0 data 61 s =
     (if a1 = 60 \<and> a2 = 60 then 0 else 1,
      s\<lparr>tx := tx s @ take 60 data @ (if a1 = 60 then [data ! 60] @ replicate 59 0 else []),
        wr_cnt := wr_cnt s + (if a1 = 60 then 3 else 1),
        rx := (if a1 = 60 then [] else [Avail [a2]])\<rparr>)"
proof (cases "a1 = 60")
  case False
  then show ?thesis
    by (subst write_stream_loop.simps)
      (simp add: serial_write_def wr acks serial_wait_data_def serial_read_def Let_def)
next
  case True
  let ?s = "s\<lparr>tx := tx s @ take 60 data, wr_cnt := Suc (wr_cnt s), rx := [Avail [a2]]\<rparr>"
  have step: "write_stream_loop 0 data 61 s = write_stream_loop 60 data 61 ?s"
    using True
    by (subst write_stream_loop.simps)
      (simp add: serial_write_def wr acks serial_wait_data_def serial_read_def Let_def)
  have "write_stream_loop 60 data 61 ?s =
     (if a2 = 60 then 0 else 1,
      ?s\<lparr>tx := tx ?s @ [data ! 60] @ replicate 59 0, wr_cnt := wr_cnt ?s + 2, rx := []\<rparr>)"
    by (rule write_stream_loop_last) (simp_all add: len wr)
  with step True show ?thesis by simp
qed

lemma host_stream_61:
  assumes len: "length data = 61"
    and wr: "\<forall>k. wr_ok h k"
    and acks: "rx h = [Avail [a1], Avail [a2]]"
  shows "serial_write_byte_stream data 61 h =
     (if a1 = 60 \<and> a2 = 60 then 0 else 1,
      h\<lparr>tx := tx h @ [0xc0, 0x00, 0x3d] @ take 60 data
              @ (if a1 = 60 then [data ! 60] @ replicate 59 0 else []),
        wr_cnt := wr_cnt h + (if a1 = 60 then 4 else 2),
        rx := (if a1 = 60 then [] else [Avail [a2]])\<rparr>)"
proof -
  let ?s = "h\<lparr>tx := tx h @ [0xc0, 0x00, 0x3d], wr_cnt := Suc (wr_cnt h)\<rparr>"
  have "write_stream_loop 0 data 61 ?s =
     (if a1 = 60 \<and> a2 = 60 then 0 else 1,
      ?s\<lparr>tx := tx ?s @ take 60 data @ (if a1 = 60 then [data ! 60] @ replicate 59 0 else []),
        wr_cnt := wr_cnt ?s + (if a1 = 60 then 3 else 1),
        rx := (if a1 = 60 then [] else [Avail [a2]])\<rparr>)"
    by (rule write_stream_loop_first) (simp_all add: len wr acks)
  then show ?thesis
    unfolding serial_write_byte_stream_def stream_cmd_def
    by (simp add: serial_write_def wr)
qed

lemma fw_chip_prompt_serial [simp]:
  "fw_chip_prompt (f\<lparr>ser_in := a\<rparr>) = fw_chip_prompt f"
  "fw_chip_prompt (f\<lparr>ser_out := b\<rparr>) = fw_chip_prompt f"
  by (simp_all add: fw_chip_prompt_def)

lemma fw_write_loop_done:
  "\<not> i < unat total' \<Longrightarrow> fw_write_loop i total' buf f = (0, f)"
  by (subst fw_write_loop.simps) simp

lemma fw_write_loop_refill:
  assumes "fw_chip_prompt f" and "i < unat total'" and "i mod 60 = 0"
    and "60 \<le> length (ser_in f)" and "length buf = 60"
  shows "\<exists>f'. fw_write_loop i total' buf f = fw_write_loop (Suc i) total' (take 60 (ser_in f)) f'
           \<and> fw_chip_prompt f' \<and> ser_in f' = drop 60 (ser_in f)
           \<and> ser_out f' = ser_out f @ [60]"
proof -
  let ?f1 = "f\<lparr>ser_in := drop 60 (ser_in f), ser_out := ser_out f @ [60]\<rparr>"
  let ?f' = "snd (fw_write_byte (of_nat i) (take 60 (ser_in f) ! 0) ?f1)"
  have p: "fw_chip_prompt ?f1"
    using assms(1) by simp
  have "fw_write_loop i total' buf f = fw_write_loop (Suc i) total' (take 60 (ser_in f)) ?f'"
    using assms
    by (subst fw_write_loop.simps)
      (simp add: Let_def case_prod_beta min_def fw_write_byte_prompt(1))
  moreover have "fw_chip_prompt ?f'"
    by (rule fw_write_byte_prompt(2)[OF p])
  moreover have "ser_in ?f' = drop 60 (ser_in f)" "ser_out ?f' = ser_out f @ [60]"
    by simp_all
  ultimately show ?thesis by blast
qed

lemma fw_write_loop_step:
  assumes "fw_chip_prompt f" and "i < unat total'" and "i mod 60 \<noteq> 0"
  shows "\<exists>f'. fw_write_loop i total' buf f = fw_write_loop (Suc i) total' buf f'
           \<and> fw_chip_prompt f' \<and> ser_in f' = ser_in f \<and> ser_out f' = ser_out f"
proof -
  let ?f' = "snd (fw_write_byte (of_nat i) (buf ! (i mod 60)) f)"
  have "fw_write_loop i total' buf f = fw_write_loop (Suc i) total' buf ?f'"
    using assms(2,3) fw_write_byte_prompt(1)[OF assms(1)]
    by (subst fw_write_loop.simps) (simp add: Let_def case_prod_beta)
  moreover have "fw_chip_prompt ?f'"
    by (rule fw_write_byte_prompt(2)[OF assms(1)])
  ultimately show ?thesis by auto
qed

lemma fw_write_loop_run:
  assumes "fw_chip_prompt f" and "i + n \<le> unat total'"
    and "\<forall>k. i \<le> k \<and> k < i + n \<longrightarrow> k mod 60 \<noteq> 0"
  shows "\<exists>f'. fw_write_loop i total' buf f = fw_write_loop (i + n) total' buf f'
           \<and> fw_chip_prompt f' \<and> ser_in f' = ser_in f \<and> ser_out f' = ser_out f"
  using assms
proof (induction n arbitrary: i f)
  case 0
  then show ?case by auto
next
  case (Suc n)
  have "i < unat total'" "i mod 60 \<noteq> 0"
    using Suc.prems by auto
  from fw_write_loop_step[OF Suc.prems(1) this] obtain g where g:
    "fw_write_loop i total' buf f = fw_write_loop (Suc i) total' buf g"
    "fw_chip_prompt g" "ser_in g = ser_in f" "ser_out g = ser_out f"
    by blast
  have "\<exists>f'. fw_write_loop (Suc i) total' buf g = fw_write_loop (Suc i + n) total' buf f'
           \<and> fw_chip_prompt f' \<and> ser_in f' = ser_in g \<and> ser_out f' = ser_out g"
    using Suc.prems by (intro Suc.IH g(2)) auto
  with g show ?case by auto
qed

lemma fw_stream_61:
  assumes "fw_chip_prompt f"
    and "ser_in f = [0x00, 0x3d] @ c1 @ c2" and "length c1 = 60" and "length c2 = 60"
  shows "fst (fw_write_byte_stream 0xc0 f) = 0
       \<and> ser_out (snd (fw_write_byte_stream 0xc0 f)) = ser_out f @ [60, 60]
       \<and> ser_in (snd (fw_write_byte_stream 0xc0 f)) = []"
proof -
  let ?g0 = "f\<lparr>ser_in := c1 @ c2\<rparr>"
  have rs: "fw_read_size 0xc0 f = (61, ?g0)"
    by (simp add: fw_read_size_def assms(2) Let_def)
  have u: "unat (61 :: u32) = 61" by simp
  have p0: "fw_chip_prompt ?g0" using assms(1) by simp
  from fw_write_loop_refill[OF p0, of 0 61 "replicate 60 0"] obtain g1 where g1:
    "fw_write_loop 0 61 (replicate 60 0) ?g0 = fw_write_loop (Suc 0) 61 c1 g1"
    "fw_chip_prompt g1" "ser_in g1 = c2" "ser_out g1 = ser_out f @ [60]"
    using assms(3,4) by (auto simp: u)
  from fw_write_loop_run[OF g1(2), of "Suc 0" 59 61 c1] obtain g2 where g2:
    "fw_write_loop (Suc 0) 61 c1 g1 = fw_write_loop 60 61 c1 g2"
    "fw_chip_prompt g2" "ser_in g2 = c2" "ser_out g2 = ser_out f @ [60]"
    using g1(3,4) by (auto simp: u)
  from fw_write_loop_refill[OF g2(2), of 60 61 c1] obtain g3 where g3:
    "fw_write_loop 60 61 c1 g2 = fw_write_loop 61 61 c2 g3"
    "fw_chip_prompt g3" "ser_in g3 = []" "ser_out g3 = ser_out f @ [60, 60]"
    using g2(3,4) assms(3,4) by (auto simp: u)
  have "fw_write_loop 61 61 c2 g3 = (0, g3)"
    by (rule fw_write_loop_done) simp
  with rs g1(1) g2(1) g3 show ?thesis
    by (simp add: fw_write_byte_stream_def)
qed

section \<open>Lemmas on the erase operation\<close>

lemma erase_read_shift:
  "erase_read (Suc k) c s =
     erase_read k (fst (snd (erase_read 0 c s))) (snd (snd (erase_read 0 c s)))"
  by (induction k) (simp_all add: Let_def)

lemma erase_before_shift:
  "erase_before (Suc k) c s =
     erase_before k (fst (snd (erase_read 0 c s))) (snd (snd (erase_read 0 c s)))"
  by (cases k) (simp_all add: erase_before_def erase_read_shift del: erase_read.simps)

lemma erase_loop_unfold:
  "erase_loop c s =
     (if c \<noteq> fst (snd (erase_read 0 c s))
      then erase_loop (fst (snd (erase_read 0 c s))) (snd (snd (erase_read 0 c s)))
      else Some (snd (snd (erase_read 0 c s))))"
  by (subst erase_loop.simps) (simp add: Let_def)

lemma erase_loop_stops:
  assumes "fst (snd (erase_read k c s)) = erase_before k c s"
    and "\<forall>j<k. fst (snd (erase_read j c s)) \<noteq> erase_before j c s"
  shows "erase_loop c s = Some (snd (snd (erase_read k c s)))"
  using assms
proof (induction k arbitrary: c s)
  case 0
  then show ?case
    by (subst erase_loop_unfold) (simp add: erase_before_def)
next
  case (Suc k)
  let ?c = "fst (snd (erase_read 0 c s))" and ?s = "snd (snd (erase_read 0 c s))"
  have ne: "c \<noteq> ?c"
    using Suc.prems(2)[rule_format, of 0] by (simp add: erase_before_def)
  have a: "fst (snd (erase_read k ?c ?s)) = erase_before k ?c ?s"
    using Suc.prems(1) by (simp add: erase_read_shift erase_before_shift del: erase_read.simps)
  have b: "\<forall>j<k. fst (snd (erase_read j ?c ?s)) \<noteq> erase_before j ?c ?s"
  proof (intro allI impI)
    fix j assume "j < k"
    then have "fst (snd (erase_read (Suc j) c s)) \<noteq> erase_before (Suc j) c s"
      using Suc.prems(2) by auto
    then show "fst (snd (erase_read j ?c ?s)) \<noteq> erase_before j ?c ?s"
      by (simp add: erase_read_shift erase_before_shift del: erase_read.simps)
  qed
  have "erase_loop c s = erase_loop ?c ?s"
    using ne by (subst erase_loop_unfold) simp
  also have "\<dots> = Some (snd (snd (erase_read k ?c ?s)))"
    by (rule Suc.IH[OF a b])
  finally show ?case
    by (simp add: erase_read_shift del: erase_read.simps)
qed

lemma erase_loop_returns:
  assumes "erase_loop c s = Some s'"
  shows "\<exists>k. fst (snd (erase_read k c s)) = erase_before k c s
            \<and> (\<forall>j<k. fst (snd (erase_read j c s)) \<noteq> erase_before j c s)
            \<and> s' = snd (snd (erase_read k c s))"
proof (rule erase_loop.raw_induct[OF _ assms])
  fix f :: "u8 \<Rightarrow> host \<Rightarrow> host option" and c s s'
  assume IH: "\<And>c s s'. f c s = Some s' \<Longrightarrow>
      \<exists>k. fst (snd (erase_read k c s)) = erase_before k c s
          \<and> (\<forall>j<k. fst (snd (erase_read j c s)) \<noteq> erase_before j c s)
          \<and> s' = snd (snd (erase_read k c s))"
    and body: "(let c1 = c; s1 = snd (init_read_mode s); rd = read_byte c s1
      in if c1 \<noteq> fst (snd rd) then f (fst (snd rd)) (snd (snd rd))
         else Some (snd (snd rd))) = Some s'"
  let ?c = "fst (snd (erase_read 0 c s))" and ?s = "snd (snd (erase_read 0 c s))"
  show "\<exists>k. fst (snd (erase_read k c s)) = erase_before k c s
          \<and> (\<forall>j<k. fst (snd (erase_read j c s)) \<noteq> erase_before j c s)
          \<and> s' = snd (snd (erase_read k c s))"
  proof (cases "c = ?c")
    case True
    with body have "s' = ?s"
      by (simp add: Let_def)
    with True show ?thesis
      by (intro exI[of _ 0]) (simp add: erase_before_def)
  next
    case False
    with body have "f ?c ?s = Some s'"
      by (simp add: Let_def)
    from IH[OF this] obtain k where k:
      "fst (snd (erase_read k ?c ?s)) = erase_before k ?c ?s"
      "\<forall>j<k. fst (snd (erase_read j ?c ?s)) \<noteq> erase_before j ?c ?s"
      "s' = snd (snd (erase_read k ?c ?s))"
      by blast
    have "\<forall>j<Suc k. fst (snd (erase_read j c s)) \<noteq> erase_before j c s"
    proof (intro allI impI)
      fix j assume j: "j < Suc k"
      show "fst (snd (erase_read j c s)) \<noteq> erase_before j c s"
      proof (cases j)
        case 0
        with False show ?thesis by (simp add: erase_before_def)
      next
        case (Suc i)
        with j k(2) have "fst (snd (erase_read i ?c ?s)) \<noteq> erase_before i ?c ?s"
          by simp
        then show ?thesis
          unfolding Suc by (simp add: erase_read_shift erase_before_shift del: erase_read.simps)
      qed
    qed
    moreover have "fst (snd (erase_read (Suc k) c s)) = erase_before (Suc k) c s"
      using k(1) by (simp add: erase_read_shift erase_before_shift del: erase_read.simps)
    moreover have "s' = snd (snd (erase_read (Suc k) c s))"
      using k(3) by (simp add: erase_read_shift del: erase_read.simps)
    ultimately show ?thesis by blast
  qed
qed

lemma erase_chip_loop:
  "erase_chip c2_init s =
     erase_loop (fst (snd (erase_read 0 c2_init (outp_repeat 13 CMD_ERASE s))))
                (snd (snd (erase_read 0 c2_init (outp_repeat 13 CMD_ERASE s))))"
  by (simp add: erase_chip_def Let_def)

lemma erase_before_Suc:
  "erase_before (Suc k) c s = fst (snd (erase_read k c s))"
  by (simp add: erase_before_def)

lemma erase_chip_returns_iff:
  "erase_chip c2_init s = Some s' \<longleftrightarrow>
     (\<exists>k. fst (snd (erase_read (Suc k) c2_init (outp_repeat 13 CMD_ERASE s)))
            = fst (snd (erase_read k c2_init (outp_repeat 13 CMD_ERASE s)))
        \<and> (\<forall>j<k. fst (snd (erase_read (Suc j) c2_init (outp_repeat 13 CMD_ERASE s)))
                 \<noteq> fst (snd (erase_read j c2_init (outp_repeat 13 CMD_ERASE s))))
        \<and> s' = snd (snd (erase_read (Suc k) c2_init (outp_repeat 13 CMD_ERASE s))))"
  (is "?L \<longleftrightarrow> ?R")
proof
  let ?s13 = "outp_repeat 13 CMD_ERASE s"
  let ?c = "fst (snd (erase_read 0 c2_init ?s13))" and ?s = "snd (snd (erase_read 0 c2_init ?s13))"
  have rd: "erase_read k ?c ?s = erase_read (Suc k) c2_init ?s13" for k
    by (simp add: erase_read_shift del: erase_read.simps)
  have bf: "erase_before k ?c ?s = fst (snd (erase_read k c2_init ?s13))" for k
    using erase_before_shift[of k c2_init ?s13] by (simp add: erase_before_Suc)
  {
    assume ?L
    then have "erase_loop ?c ?s = Some s'"
      by (simp only: erase_chip_loop)
    from erase_loop_returns[OF this] show ?R
      unfolding rd bf .
  next
    assume ?R
    then obtain k where k:
      "fst (snd (erase_read k ?c ?s)) = erase_before k ?c ?s"
      "\<forall>j<k. fst (snd (erase_read j ?c ?s)) \<noteq> erase_before j ?c ?s"
      "s' = snd (snd (erase_read k ?c ?s))"
      unfolding rd bf by blast
    from erase_loop_stops[OF k(1,2)] k(3) show ?L
      by (simp only: erase_chip_loop)
  }
qed








lemma outp_chain_log_ok:
  assumes "fst (outp_chain ds s) = 0"
  shows "\<exists>ys. out_log (snd (outp_chain ds s)) = out_log s @ ys
            \<and> pentads_of ys = map (\<lambda>d. d AND 0x1f) ds"
  using assms
proof (induction ds arbitrary: s)
  case Nil
  show ?case by (simp add: pentads_of_def)
next
  case (Cons d ds)
  let ?s1 = "snd (outp d s)"
  have r: "fst (outp d s) = 0"
    using Cons.prems by (simp add: case_prod_beta split: if_splits)
  then have e: "outp_chain (d # ds) s = outp_chain ds ?s1"
    by (simp add: case_prod_beta)
  obtain ys where ys: "out_log ?s1 = out_log s @ ys" "pentads_of ys = [d AND 0x1f]"
    using outp_log_ex by blast
  have "fst (outp_chain ds ?s1) = 0"
    using Cons.prems e by simp
  from Cons.IH[OF this] obtain zs where zs:
    "out_log (snd (outp_chain ds ?s1)) = out_log ?s1 @ zs" "pentads_of zs = map (\<lambda>d. d AND 0x1f) ds"
    by blast
  show ?case
    unfolding e using ys zs by (simp add: pentads_of_append)
qed

lemma read_bits_log_ok:
  assumes "fst (read_bits i data s) = 0"
  shows "\<exists>ys. out_log (snd (snd (read_bits i data s))) = out_log s @ ys
            \<and> pentads_of ys = map (\<lambda>j. of_nat j AND 0x1f) [i..<8]"
  using assms
proof (induction i data s rule: read_bits.induct)
  case (1 i data s)
  show ?case
  proof (cases "i < 8")
    case False
    then show ?thesis
      by (subst read_bits.simps) (simp add: pentads_of_def)
  next
    case True
    let ?s1 = "snd (host_inb s)"
    let ?d = "push_bit 3 (fst (host_inb s) AND MASK_CHIP_DATA) OR drop_bit 1 data"
    let ?s2 = "snd (outp (of_nat i) ?s1)"
    have unf: "read_bits i data s =
        (if fst (outp (of_nat i) ?s1) \<noteq> 0 then (1, ?d, ?s2) else read_bits (Suc i) ?d ?s2)"
      using True by (subst read_bits.simps) (simp add: case_prod_beta Let_def)
    have o: "fst (outp (of_nat i) ?s1) = 0"
      using "1.prems" unfolding unf by (simp split: if_splits)
    have step: "read_bits i data s = read_bits (Suc i) ?d ?s2"
      using unf o by simp
    obtain ys where ys: "out_log ?s2 = out_log ?s1 @ ys" "pentads_of ys = [of_nat i AND 0x1f]"
      using outp_log_ex by blast
    have nx: "fst (read_bits (Suc i) ?d ?s2) = 0"
      using "1.prems" step by simp
    have "\<exists>zs. out_log (snd (snd (read_bits (Suc i) ?d ?s2))) = out_log ?s2 @ zs
            \<and> pentads_of zs = map (\<lambda>j. of_nat j AND 0x1f) [Suc i..<8]"
      using nx by (intro "1.IH"[OF True prod.collapse refl prod.collapse]) (simp_all add: o)
    then obtain zs where zs: "out_log (snd (snd (read_bits (Suc i) ?d ?s2))) = out_log ?s2 @ zs"
      "pentads_of zs = map (\<lambda>j. of_nat j AND 0x1f) [Suc i..<8]"
      by blast
    have l1: "out_log ?s1 = out_log s"
      by (simp add: host_inb_def)
    show ?thesis
      unfolding step using ys zs l1 True by (simp add: pentads_of_append upt_conv_Cons)
  qed
qed

lemma erase_read_0_log_ok:
  assumes "fst (init_read_mode s) = 0" and "fst (erase_read 0 c s) = 0"
  shows "\<exists>ys. out_log (snd (snd (erase_read 0 c s))) = out_log s @ ys
            \<and> pentads_of ys = read_pass_pentads"
proof -
  let ?s1 = "snd (init_read_mode s)"
  let ?s2 = "snd (outp CMD_READ ?s1)"
  obtain xs where xs: "out_log ?s1 = out_log s @ xs"
      "pentads_of xs = map (\<lambda>d. d AND 0x1f) CMD_READ_INIT"
    using outp_chain_log_ok[of CMD_READ_INIT s] assms(1) unfolding init_read_mode_def by blast
  have rd: "fst (read_byte c ?s1) = 0"
    using assms(2) by simp
  have o: "fst (outp CMD_READ ?s1) = 0"
    using rd by (simp add: read_byte_def case_prod_beta split: if_splits)
  have b: "fst (read_bits 0 0 ?s2) = 0"
    using rd o by (simp add: read_byte_def case_prod_beta split: if_splits)
  have st: "snd (snd (erase_read 0 c s)) = snd (snd (read_bits 0 0 ?s2))"
    using o b by (simp add: read_byte_def case_prod_beta)
  obtain ys where ys: "out_log ?s2 = out_log ?s1 @ ys" "pentads_of ys = [CMD_READ AND 0x1f]"
    using outp_log_ex by blast
  obtain zs where zs: "out_log (snd (snd (read_bits 0 0 ?s2))) = out_log ?s2 @ zs"
      "pentads_of zs = map (\<lambda>j. of_nat j AND 0x1f) [0..<8]"
    using read_bits_log_ok[OF b] by blast
  have "pentads_of (xs @ ys @ zs) = read_pass_pentads"
    by (simp add: pentads_of_append xs(2) ys(2) zs(2) read_pass_pentads_def CMD_READ_INIT_def
        CMD_READ_def upt_rec)
  then show ?thesis
    unfolding st using xs(1) ys(1) zs(1) by (intro exI[of _ "xs @ ys @ zs"]) simp
qed

lemma passes_ok_0:
  "passes_ok 0 c s = (fst (init_read_mode s) = 0 \<and> fst (erase_read 0 c s) = 0)"
  by (simp add: passes_ok_def)

lemma passes_ok_Suc:
  "passes_ok (Suc n) c s =
     (passes_ok n c s \<and> erase_init (Suc n) c s = 0 \<and> fst (erase_read (Suc n) c s) = 0)"
  by (simp add: passes_ok_def del: erase_read.simps erase_init.simps)

lemma first_equal_pair_iff:
  "first_equal_pair k c s =
     (fst (snd (erase_read (Suc k) c s)) = fst (snd (erase_read k c s))
      \<and> (\<forall>j<k. fst (snd (erase_read (Suc j) c s)) \<noteq> fst (snd (erase_read j c s))))"
  by (auto simp add: first_equal_pair_def list_all_iff simp del: erase_read.simps)

lemma concat_replicate_Suc:
  "concat (replicate (Suc n) xs) = concat (replicate n xs) @ xs"
  by (induction n) simp_all

lemma erase_passes_log_ok:
  assumes "passes_ok k c s"
  shows "\<exists>ys. out_log (snd (snd (erase_read k c s))) = out_log s @ ys
            \<and> pentads_of ys = concat (replicate (Suc k) read_pass_pentads)"
  using assms
proof (induction k)
  case 0
  then show ?case
    using erase_read_0_log_ok[of s c] by (simp add: passes_ok_0)
next
  case (Suc k)
  let ?c = "fst (snd (erase_read k c s))" and ?s = "snd (snd (erase_read k c s))"
  have e: "erase_read (Suc k) c s = erase_read 0 ?c ?s"
    by (simp add: Let_def)
  from Suc.prems have p: "passes_ok k c s" "fst (init_read_mode ?s) = 0"
      "fst (erase_read 0 ?c ?s) = 0"
    by (simp_all add: passes_ok_Suc Let_def)
  from Suc.IH[OF p(1)] obtain ys where ys: "out_log ?s = out_log s @ ys"
      "pentads_of ys = concat (replicate (Suc k) read_pass_pentads)"
    by blast
  from erase_read_0_log_ok[OF p(2,3)] obtain zs where zs:
      "out_log (snd (snd (erase_read 0 ?c ?s))) = out_log ?s @ zs" "pentads_of zs = read_pass_pentads"
    by blast
  have "concat (replicate (Suc (Suc k)) read_pass_pentads)
          = concat (replicate (Suc k) read_pass_pentads) @ read_pass_pentads"
    by (rule concat_replicate_Suc)
  then show ?case
    unfolding e using ys zs by (intro exI[of _ "ys @ zs"]) (simp add: pentads_of_append)
qed

lemma read_byte_ok_any:
  "fst (read_byte c s) = 0 \<Longrightarrow> read_byte c' s = read_byte c s"
  by (simp add: read_byte_def case_prod_beta split: if_splits)

lemma erase_read_ok_any:
  assumes "fst (erase_read 0 c s) = 0"
  shows "erase_read k c' s = erase_read k c s"
proof (induction k)
  case 0
  show ?case using assms read_byte_ok_any[of c "snd (init_read_mode s)" c'] by simp
next
  case (Suc k)
  then show ?case by (simp add: Let_def)
qed

lemma passes_ok_first:
  "passes_ok n c s \<Longrightarrow> fst (erase_read 0 c s) = 0"
  by (induction n) (simp_all add: passes_ok_0 passes_ok_Suc del: erase_read.simps erase_init.simps)

lemma erase_passes_pentads:
  assumes "passes_ok j c (outp_repeat 13 CMD_ERASE s)"
  shows "pentads_of (emitted s (snd (snd (erase_read j c (outp_repeat 13 CMD_ERASE s)))))
           = replicate 13 CMD_ERASE @ concat (replicate (Suc j) read_pass_pentads)"
proof -
  let ?s13 = "outp_repeat 13 CMD_ERASE s"
  obtain xs where xs: "out_log ?s13 = out_log s @ xs" "pentads_of xs = replicate 13 (CMD_ERASE AND 0x1f)"
    using outp_repeat_log_ex by blast
  obtain ys where ys: "out_log (snd (snd (erase_read j c ?s13))) = out_log ?s13 @ ys"
      "pentads_of ys = concat (replicate (Suc j) read_pass_pentads)"
    using erase_passes_log_ok[OF assms] by blast
  show ?thesis
    using xs ys by (simp add: emitted_def pentads_of_append CMD_ERASE_def)
qed

lemma erase_chip_converges:
  assumes ok: "passes_ok (Suc k) c (outp_repeat 13 CMD_ERASE s)"
    and eq: "first_equal_pair k c (outp_repeat 13 CMD_ERASE s)"
  shows "erase_chip c' s = Some (snd (snd (erase_read (Suc k) c (outp_repeat 13 CMD_ERASE s))))"
    and "pentads_of (emitted s (snd (snd (erase_read (Suc k) c (outp_repeat 13 CMD_ERASE s)))))
           = replicate 13 CMD_ERASE @ concat (replicate (k + 2) read_pass_pentads)"
proof -
  let ?s13 = "outp_repeat 13 CMD_ERASE s"
  have any: "erase_read j c' ?s13 = erase_read j c ?s13" for j
    by (rule erase_read_ok_any[OF passes_ok_first[OF ok]])
  show "erase_chip c' s = Some (snd (snd (erase_read (Suc k) c ?s13)))"
    unfolding erase_chip_returns_iff any
    using eq[unfolded first_equal_pair_iff] by blast
  show "pentads_of (emitted s (snd (snd (erase_read (Suc k) c ?s13))))
           = replicate 13 CMD_ERASE @ concat (replicate (k + 2) read_pass_pentads)"
    using erase_passes_pentads[OF ok] by simp
qed

lemma read_pass_answered:
  assumes "safe_mode s"
    and line: "\<forall>k<36. in_src s (in_cnt s + k) = read_pass_line k"
  shows "fst (init_read_mode s) = 0"
    and "erase_read 0 c s =
           (0, 0, s\<lparr>out_log := out_log s @ read_pass_wire, in_cnt := in_cnt s + 36\<rparr>)"
proof -
  define S where "S = (\<lambda>n l. s\<lparr>out_log := out_log s @ l, in_cnt := in_cnt s + n\<rparr>)"
  define L where "L = (\<lambda>n. in_src s (in_cnt s + n))"
  have Lk: "k < 36 \<Longrightarrow> L k = read_pass_line k" for k
    using line by (simp add: L_def)
  have s0: "s = S 0 []"
    by (simp add: S_def)
  have step: "outp d (S n l) = (0, S (n + 2) (l @ [formatted d, formatted d OR 0x10]))"
    if "L n AND MASK_CHIP_ERR \<noteq> 0" "L (n + 1) AND MASK_CHIP_ERR = 0" for d n l
    using that assms(1) outp_acked[of "S n l" d] by (simp add: S_def L_def add.assoc)
  have inb: "host_inb (S n l) = (L n, S (n + 1) l)" for n l
    by (simp add: S_def L_def host_inb_def)
  have i: "init_read_mode (S 0 []) = (0, S 10 (take 10 read_pass_wire))"
    by (simp add: init_read_mode_def CMD_READ_INIT_def step Lk read_pass_line_def
        MASK_CHIP_ERR_def formatted_def read_pass_wire_def) (simp add: numeral_eq_Suc)
  have r: "read_byte c (S 10 (take 10 read_pass_wire)) = (0, 0, S 36 read_pass_wire)"
    by (simp add: read_byte_def CMD_READ_def step inb Lk read_pass_line_def
        MASK_CHIP_ERR_def MASK_CHIP_DATA_def formatted_def read_pass_wire_def read_bits.simps)
  show "fst (init_read_mode s) = 0"
    by (subst s0) (simp add: i)
  have "erase_read 0 c (S 0 []) = (0, 0, S 36 read_pass_wire)"
    by (simp add: i r)
  then show "erase_read 0 c s =
           (0, 0, s\<lparr>out_log := out_log s @ read_pass_wire, in_cnt := in_cnt s + 36\<rparr>)"
    unfolding s0[symmetric] by (simp add: S_def)
qed



lemma outp_repeat_stuck_for:
  assumes "safe_mode s"
    and "\<forall>k<4 * n. in_src s (in_cnt s + k) AND MASK_CHIP_ERR = 0"
  shows "outp_repeat n d s =
     s\<lparr>out_log := out_log s @ replicate n (formatted d), in_cnt := in_cnt s + 4 * n,
       slept := slept s @ concat (replicate n [125, 250, 500, 1000])\<rparr>"
  using assms
proof (induction n arbitrary: s)
  case 0
  then show ?case by simp
next
  case (Suc n)
  let ?s1 = "s\<lparr>out_log := out_log s @ [formatted d], in_cnt := in_cnt s + 4,
            slept := slept s @ [125, 250, 500, 1000]\<rparr>"
  have o: "outp d s = (1, ?s1)"
    using Suc.prems by (intro outp_stuck) simp_all
  have "\<forall>k<4 * n. in_src ?s1 (in_cnt ?s1 + k) AND MASK_CHIP_ERR = 0"
  proof (intro allI impI)
    fix k assume "k < 4 * n"
    then have "4 + k < 4 * Suc n" by simp
    from Suc.prems(2)[rule_format, OF this] show "in_src ?s1 (in_cnt ?s1 + k) AND MASK_CHIP_ERR = 0"
      by (simp add: add.assoc)
  qed
  moreover have "safe_mode ?s1" using Suc.prems(1) by simp
  ultimately show ?case
    by (simp add: o Suc.IH replicate_app_Cons_same)
qed


lemma chip_line_pass:
  assumes "p < n" and "k < 36"
  shows "chip_line first e n (e + 36 * p + k) = read_pass_line k"
proof -
  have "Suc p \<le> n" using assms(1) by simp
  then have "36 * Suc p \<le> 36 * n" by (rule mult_le_mono2)
  then have a: "e + 36 * p + k < e + 36 * n" using assms(2) by simp
  have b: "(e + 36 * p + k - e) mod 36 = k" using assms(2) by simp
  show ?thesis
    unfolding chip_line_def using a b by simp
qed


lemma chip_line_reads:
  assumes "safe_mode s" and "in_src s = chip_line first (in_cnt s) n" and "p < n"
  shows "erase_init p c s = 0
       \<and> erase_read p c s =
           (0, 0, s\<lparr>out_log := out_log s @ concat (replicate (Suc p) read_pass_wire),
                    in_cnt := in_cnt s + 36 * Suc p\<rparr>)"
  using assms(3)
proof (induction p)
  case 0
  have "\<forall>k<36. in_src s (in_cnt s + k) = read_pass_line k"
    using chip_line_pass[OF 0, of _ first "in_cnt s"] by (simp add: assms(2))
  from read_pass_answered(1)[OF assms(1) this] read_pass_answered(2)[OF assms(1) this, of c]
  show ?case
    by simp
next
  case (Suc p)
  let ?sp = "s\<lparr>out_log := out_log s @ concat (replicate (Suc p) read_pass_wire),
                    in_cnt := in_cnt s + 36 * Suc p\<rparr>"
  have IH: "erase_read p c s = (0, 0, ?sp)"
    using Suc by simp
  have sm: "safe_mode ?sp"
    using assms(1) by simp
  have "\<forall>k<36. in_src ?sp (in_cnt ?sp + k) = read_pass_line k"
    using chip_line_pass[OF Suc.prems, of _ first "in_cnt s"] by (simp add: assms(2))
  from read_pass_answered(1)[OF sm this] read_pass_answered(2)[OF sm this, of 0] show ?case
    by (simp add: IH Let_def concat_replicate_Suc del: replicate.simps)
qed



lemma host_deaf_erase_erase:
  "outp_repeat 13 CMD_ERASE host_deaf_erase =
     host_deaf_erase\<lparr>out_log := replicate 13 0x03, in_cnt := 52,
       slept := concat (replicate 13 [125, 250, 500, 1000])\<rparr>"
proof -
  have "outp_repeat 13 CMD_ERASE host_deaf_erase =
     host_deaf_erase\<lparr>out_log := out_log host_deaf_erase @ replicate 13 (formatted CMD_ERASE),
       in_cnt := in_cnt host_deaf_erase + 4 * 13,
       slept := slept host_deaf_erase @ concat (replicate 13 [125, 250, 500, 1000])\<rparr>"
    by (rule outp_repeat_stuck_for)
      (simp_all add: host_deaf_erase_def host_stuck_def chip_line_def)
  then show ?thesis
    by (simp add: host_deaf_erase_def host_stuck_def CMD_ERASE_def formatted_def)
qed


lemma outp_chain_log_ext:
  "\<exists>ys. out_log (snd (outp_chain ds s)) = out_log s @ ys"
proof (induction ds arbitrary: s)
  case Nil
  show ?case by simp
next
  case (Cons d ds)
  obtain ys where ys: "out_log (snd (outp d s)) = out_log s @ ys"
    using outp_log_ex by blast
  obtain zs where zs: "out_log (snd (outp_chain ds (snd (outp d s)))) = out_log (snd (outp d s)) @ zs"
    using Cons.IH by blast
  show ?case
    using ys zs by (simp add: case_prod_beta)
qed

lemma read_bits_log_ext:
  "\<exists>ys. out_log (snd (snd (read_bits i data s))) = out_log s @ ys"
proof (induction i data s rule: read_bits.induct)
  case (1 i data s)
  show ?case
  proof (cases "i < 8")
    case False
    then show ?thesis
      by (subst read_bits.simps) simp
  next
    case True
    let ?s1 = "snd (host_inb s)"
    let ?d = "push_bit 3 (fst (host_inb s) AND MASK_CHIP_DATA) OR drop_bit 1 data"
    let ?s2 = "snd (outp (of_nat i) ?s1)"
    have unf: "read_bits i data s =
        (if fst (outp (of_nat i) ?s1) \<noteq> 0 then (1, ?d, ?s2) else read_bits (Suc i) ?d ?s2)"
      using True by (subst read_bits.simps) (simp add: case_prod_beta Let_def)
    obtain ys where ys: "out_log ?s2 = out_log ?s1 @ ys"
      using outp_log_ex by blast
    have l1: "out_log ?s1 = out_log s"
      by (simp add: host_inb_def)
    show ?thesis
    proof (cases "fst (outp (of_nat i) ?s1) = 0")
      case False
      then show ?thesis
        unfolding unf using ys l1 by simp
    next
      case o: True
      have "\<exists>zs. out_log (snd (snd (read_bits (Suc i) ?d ?s2))) = out_log ?s2 @ zs"
        by (intro "1.IH"[OF True prod.collapse refl prod.collapse]) (simp add: o)
      then show ?thesis
        unfolding unf using ys l1 o by auto
    qed
  qed
qed

lemma read_byte_log_ext:
  "\<exists>ys. out_log (snd (snd (read_byte c s))) = out_log s @ ys"
proof -
  obtain ys where ys: "out_log (snd (outp CMD_READ s)) = out_log s @ ys"
    using outp_log_ex by blast
  obtain zs where zs: "out_log (snd (snd (read_bits 0 0 (snd (outp CMD_READ s)))))
      = out_log (snd (outp CMD_READ s)) @ zs"
    using read_bits_log_ext by blast
  show ?thesis
    using ys zs by (simp add: read_byte_def case_prod_beta)
qed

lemma erase_read_0_log_first:
  "\<exists>ys zs. out_log (snd (snd (erase_read 0 c s))) = out_log s @ ys \<and> pentads_of ys = 0x11 # zs"
proof -
  let ?s1 = "snd (outp 0x11 s)"
  let ?s2 = "snd (init_read_mode s)"
  obtain y1 where y1: "out_log ?s1 = out_log s @ y1" "pentads_of y1 = [0x11 AND 0x1f]"
    using outp_log_ex by blast
  obtain y2 where y2: "out_log (snd (outp_chain [0, 0, 0, 0] ?s1)) = out_log ?s1 @ y2"
    using outp_chain_log_ext by blast
  have "out_log ?s2 = out_log ?s1 \<or> out_log ?s2 = out_log ?s1 @ y2"
    using y2 by (simp add: init_read_mode_def CMD_READ_INIT_def case_prod_beta)
  then obtain y2' where i: "out_log ?s2 = out_log ?s1 @ y2'"
    by auto
  obtain y3 where y3: "out_log (snd (snd (read_byte c ?s2))) = out_log ?s2 @ y3"
    using read_byte_log_ext by blast
  have "out_log (snd (snd (erase_read 0 c s))) = out_log s @ (y1 @ y2' @ y3)"
    using y1(1) i y3 by simp
  moreover have "pentads_of (y1 @ y2' @ y3) = 0x11 # pentads_of (y2' @ y3)"
    using y1(2) by (simp add: pentads_of_append)
  ultimately show ?thesis
    by blast
qed

lemma erase_read_log_first:
  "\<exists>ys zs. out_log (snd (snd (erase_read k c s))) = out_log s @ ys \<and> pentads_of ys = 0x11 # zs"
proof (induction k)
  case 0
  show ?case by (rule erase_read_0_log_first)
next
  case (Suc k)
  let ?c = "fst (snd (erase_read k c s))" and ?s = "snd (snd (erase_read k c s))"
  have e: "erase_read (Suc k) c s = erase_read 0 ?c ?s"
    by (simp add: Let_def)
  obtain ys zs where a: "out_log ?s = out_log s @ ys" "pentads_of ys = 0x11 # zs"
    using Suc.IH by blast
  obtain ws vs where b: "out_log (snd (snd (erase_read 0 ?c ?s))) = out_log ?s @ ws"
      "pentads_of ws = 0x11 # vs"
    using erase_read_0_log_first by blast
  have "out_log (snd (snd (erase_read (Suc k) c s))) = out_log s @ (ys @ ws)"
    unfolding e using a(1) b(1) by simp
  moreover have "pentads_of (ys @ ws) = 0x11 # (zs @ pentads_of ws)"
    using a(2) by (simp add: pentads_of_append)
  ultimately show ?case
    by blast
qed

lemma erase_chip_log_first:
  assumes "erase_chip c s = Some s'"
  shows "\<exists>zs. pentads_of (emitted s s') = replicate 13 CMD_ERASE @ 0x11 # zs"
proof -
  let ?s13 = "outp_repeat 13 CMD_ERASE s"
  obtain k where k: "s' = snd (snd (erase_read (Suc k) c ?s13))"
    using assms unfolding erase_chip_returns_iff by blast
  obtain xs where xs: "out_log ?s13 = out_log s @ xs" "pentads_of xs = replicate 13 (CMD_ERASE AND 0x1f)"
    using outp_repeat_log_ex by blast
  obtain ys zs where ys: "out_log s' = out_log ?s13 @ ys" "pentads_of ys = 0x11 # zs"
    unfolding k using erase_read_log_first by blast
  have "pentads_of (emitted s s') = replicate 13 CMD_ERASE @ 0x11 # zs"
    using xs ys by (simp add: emitted_def pentads_of_append CMD_ERASE_def)
  then show ?thesis
    by blast
qed



lemma host_deaf_erase_reads:
  assumes "p < 2"
  shows "erase_init p c (outp_repeat 13 CMD_ERASE host_deaf_erase) = 0"
    and "fst (erase_read p c (outp_repeat 13 CMD_ERASE host_deaf_erase)) = 0"
    and "fst (snd (erase_read p c (outp_repeat 13 CMD_ERASE host_deaf_erase))) = 0"
    and "in_cnt (snd (snd (erase_read p c (outp_repeat 13 CMD_ERASE host_deaf_erase))))
           = 52 + 36 * Suc p"
    and "slept (snd (snd (erase_read p c (outp_repeat 13 CMD_ERASE host_deaf_erase))))
           = concat (replicate 13 [125, 250, 500, 1000])"
proof -
  let ?s13 = "outp_repeat 13 CMD_ERASE host_deaf_erase"
  have a: "safe_mode ?s13" "in_src ?s13 = chip_line (\<lambda>k. 0x00) (in_cnt ?s13) 2"
    by (simp_all add: host_deaf_erase_erase) (simp_all add: host_deaf_erase_def host_stuck_def)
  have c: "in_cnt ?s13 = 52" "slept ?s13 = concat (replicate 13 [125, 250, 500, 1000])"
    by (simp_all add: host_deaf_erase_erase)
  note r = chip_line_reads[OF a assms, of c]
  show "erase_init p c ?s13 = 0" using r by blast
  show "fst (erase_read p c ?s13) = 0" using r by simp
  show "fst (snd (erase_read p c ?s13)) = 0" using r by simp
  show "in_cnt (snd (snd (erase_read p c ?s13))) = 52 + 36 * Suc p" using r c by simp
  show "slept (snd (snd (erase_read p c ?s13))) = concat (replicate 13 [125, 250, 500, 1000])"
    using r c by simp
qed

lemma host_deaf_erase_fault: "fst (outp CMD_ERASE host_deaf_erase) = 1"
  by (subst outp_stuck) (simp_all add: host_deaf_erase_def host_stuck_def chip_line_def)

lemma passes_ok_1:
  "passes_ok (Suc 0) c s =
     (erase_init 0 c s = 0 \<and> fst (erase_read 0 c s) = 0
      \<and> erase_init (Suc 0) c s = 0 \<and> fst (erase_read (Suc 0) c s) = 0)"
  by (simp add: passes_ok_Suc passes_ok_0 del: erase_read.simps)

lemma first_equal_pair_0:
  "first_equal_pair 0 c s = (fst (snd (erase_read (Suc 0) c s)) = fst (snd (erase_read 0 c s)))"
  by (simp add: first_equal_pair_def del: erase_read.simps)

lemma replicate_2_pentads:
  "concat (replicate (0 + 2) xs) = xs @ xs"
  by (simp add: numeral_2_eq_2)

section \<open>The safe-mode handshake when the line never answers\<close>

text \<open>
  Claim C5, amended. When the acknowledgment line is not at the expected level at any of
  the four samples, a handshake phase samples the line exactly 4 times and fails, on the
  host and in the firmware alike. The host sleeps 125, 250, 500 and 1000 microseconds
  after the four attempts; the firmware waits a constant 1 millisecond after each.
\<close>

theorem safe_mode_check_exhausted:
  assumes "\<forall>k<4. (in_src s (in_cnt s + k) AND MASK_CHIP_ERR \<noteq> 0) \<noteq> high"
    and "\<forall>k<4. err_src f (err_cnt f + k) \<noteq> check_high"
  shows "safe_mode_check high s =
           (1, s\<lparr>in_cnt := in_cnt s + 4, slept := slept s @ [125, 250, 500, 1000]\<rparr>)
       \<and> fw_safe_mode_check check_high f =
           (1, f\<lparr>err_cnt := err_cnt f + 4, delays := delays f @ [1, 1, 1, 1]\<rparr>)"
  using assms by (simp add: smc_stuck fw_smc_stuck)

theorem safe_mode_check_exhausted_witness:
  "safe_mode_check True host_stuck =
       (1, host_stuck\<lparr>in_cnt := 4, slept := [125, 250, 500, 1000]\<rparr>)
   \<and> fw_safe_mode_check True fw_stuck =
       (1, fw_stuck\<lparr>err_cnt := 4, delays := [1, 1, 1, 1]\<rparr>)"
  using safe_mode_check_exhausted [of host_stuck True fw_stuck True]
  by (simp add: host_stuck_def fw_stuck_def)

text \<open>
  The claim as stated fails in the firmware: with the line stuck low the four waits are
  of 1 ms each, not 125, 250, 500 and 1000 microseconds.
\<close>

theorem fw_safe_mode_check_delays_counterexample:
  "delays (snd (fw_safe_mode_check True fw_stuck)) = [1, 1, 1, 1]
   \<and> map (\<lambda>ms. 1000 * ms) (delays (snd (fw_safe_mode_check True fw_stuck)))
       \<noteq> [125, 250, 500, 1000]"
  by (simp add: fw_smc_stuck fw_stuck_def)

section \<open>Writing the erased value\<close>

text \<open>
  Claim C6. For every address, \<open>write_byte\<close> with the data byte \<open>0xFF\<close> returns success and
  leaves the whole state as it was: nothing is put on the output lines and no input is
  sampled. This holds for the host and for the firmware.
\<close>

theorem write_byte_0xff_noop:
  "write_byte 0xff address s = (0, s) \<and> fw_write_byte address' 0xff f = (0, f)"
  by (simp add: write_byte_def fw_write_byte_def)

section \<open>The address a write carries\<close>

text \<open>
  Claim C1. For every 32-bit address and every data byte other than \<open>0xFF\<close>, in every run
  of the host's \<open>write_byte\<close> that returns success, the 17 address bits read back from the
  four address-carrying pentads on the output lines (2 bits from the pentad shared with
  the top data bits, then three groups of 5 bits, each pentad cut to its 5-bit payload by
  \<open>outp\<close>) are \<open>address & 0x1FFFF\<close>.
\<close>

theorem write_byte_address_roundtrip:
  assumes "data \<noteq> 0xff" and "fst (write_byte data address s) = 0"
  shows "address_of_pentads (pentads_of (emitted s (snd (write_byte data address s))))
           = address AND 0x1ffff"
  unfolding write_byte_ok_pentads[OF assms] address_of_pentads.simps
  by (rule address_bits_roundtrip)

theorem write_byte_address_roundtrip_witness:
  "fst (write_byte 0xa5 0x12345678 host_prompt) = 0
   \<and> address_of_pentads
        (pentads_of (emitted host_prompt (snd (write_byte 0xa5 0x12345678 host_prompt))))
      = 0x5678"
proof -
  have ok: "fst (write_byte 0xa5 0x12345678 host_prompt) = 0"
    by (rule write_byte_prompt(1)[OF chip_prompt_host_prompt])
  have ne: "(0xa5 :: u8) \<noteq> 0xff"
    by simp
  from write_byte_address_roundtrip[OF ne ok] ok show ?thesis
    by simp
qed

section \<open>Host and firmware emit the same pentads\<close>

text \<open>
  Claim C10. For every address in \<open>[0, 0x1FFFF]\<close> and every data byte, whenever the host's
  \<open>write_byte\<close> and the firmware's \<open>write_byte\<close> both run to their end (return success),
  the pentad payloads they put on the lines to the chip are the same sequence: nothing
  for the data byte \<open>0xFF\<close>, otherwise the command pentad, the four packed address and
  data pentads and the four trailing data pentads. Only the host masks the address.
\<close>

theorem write_byte_host_firmware_agree:
  assumes "address \<le> 0x1ffff"
    and "fst (write_byte data address s) = 0"
    and "fst (fw_write_byte address data f) = 0"
  shows "pentads_of (emitted s (snd (write_byte data address s))) =
         fw_pentads_of (fw_emitted f (snd (fw_write_byte address data f)))"
proof (cases "data = 0xff")
  case True
  then show ?thesis
    by (simp add: write_byte_def fw_write_byte_def emitted_def fw_emitted_def
        pentads_of_def fw_pentads_of_def)
next
  case False
  have m: "address AND 0x1ffff = address"
    using assms(1) by (rule le_0x1ffff)
  show ?thesis
    unfolding write_byte_ok_pentads[OF False assms(2)] fw_write_byte_ok_pentads[OF False assms(3)] m
    by (rule refl)
qed

theorem write_byte_host_firmware_agree_witness:
  "(0x12345 :: u32) \<le> 0x1ffff
   \<and> fst (write_byte 0xa5 0x12345 host_prompt) = 0
   \<and> fst (fw_write_byte 0x12345 0xa5 fw_prompt) = 0
   \<and> pentads_of (emitted host_prompt (snd (write_byte 0xa5 0x12345 host_prompt))) =
       fw_pentads_of (fw_emitted fw_prompt (snd (fw_write_byte 0x12345 0xa5 fw_prompt)))"
proof -
  have le: "(0x12345 :: u32) \<le> 0x1ffff"
    by simp
  have h: "fst (write_byte 0xa5 0x12345 host_prompt) = 0"
    by (rule write_byte_prompt(1)[OF chip_prompt_host_prompt])
  have f: "fst (fw_write_byte 0x12345 0xa5 fw_prompt) = 0"
    by (rule fw_write_byte_prompt(1)[OF fw_chip_prompt_fw_prompt])
  from write_byte_host_firmware_agree[OF le h f] le h f show ?thesis
    by (simp only: simp_thms)
qed

section \<open>Which failures a write reports\<close>

text \<open>
  Claim C8, amended. For every address and every data byte other than \<open>0xFF\<close>, the
  host's \<open>write_byte\<close> returns failure exactly when one of its five leading pentad
  emissions fails: the command pentad, the pentad packing data and address bits, and the
  three address pentads, emitted in this order up to the first failure. The results of
  the four trailing data pentads are dropped and do not change what \<open>write_byte\<close> returns.
\<close>

theorem write_byte_status:
  assumes "data \<noteq> 0xff"
  shows "fst (write_byte data address s) =
     fst (outp_chain
            [CMD_WRITE_BYTE,
             ucast (ucast (drop_bit 3 data AND 0x1c) OR drop_bit 15 (address AND 0x1ffff)),
             ucast (drop_bit 10 (address AND 0x1ffff)),
             ucast (drop_bit 5 (address AND 0x1ffff)),
             ucast (address AND 0x1ffff)] s)"
  using assms by (simp add: write_byte_def Let_def case_prod_beta)

theorem write_byte_status_witness:
  "fst (write_byte 0 0 host_fades) = fst (outp_chain [CMD_WRITE_BYTE, 0, 0, 0, 0] host_fades)"
  using write_byte_status [of 0 0 host_fades] by simp

text \<open>
  The claim as stated fails for the trailing pentads: with a chip that answers the five
  leading pentads and then stops, each of the four trailing emissions uses up its four
  tries, and \<open>write_byte\<close> still returns 0.
\<close>

theorem write_byte_trailing_fault_counterexample:
  "fst (outp_chain [CMD_WRITE_BYTE, 0, 0, 0, 0] host_fades) = 0
   \<and> fst (outp 0 (snd (outp_chain [CMD_WRITE_BYTE, 0, 0, 0, 0] host_fades))) = 1
   \<and> write_byte 0 0 host_fades =
       (0, host_fades\<lparr>out_log := [0x05, 0x15, 0, 0x10, 0, 0x10, 0, 0x10, 0, 0x10, 0, 0, 0, 0],
                       in_cnt := 26,
                       slept := [125, 250, 500, 1000, 125, 250, 500, 1000,
                                 125, 250, 500, 1000, 125, 250, 500, 1000]\<rparr>)"
  by (simp add: write_byte_def host_fades_def host_stuck_def outp_acked outp_stuck4
      outp_repeat_4 MASK_CHIP_ERR_def CMD_WRITE_BYTE_def formatted_def Let_def)

section \<open>The stream frame carries its length\<close>

text \<open>
  Claim C7. For every \<open>n\<close> in \<open>[0, 0x20000]\<close>, the three bytes the host sends to open a
  stream (byte 0 is the tag \<open>0x80\<close> or \<open>0xC0\<close> or-ed with \<open>n >> 16\<close>, byte 1 is
  \<open>(n >> 8) & 0xFF\<close>, byte 2 is \<open>n & 0xFF\<close>) are decoded by the firmware's \<open>read_size\<close>, called
  with the first byte while the other two wait on the serial link, to exactly \<open>n\<close>. This
  includes \<open>n = 0x20000\<close>, whose bit 17 travels in the first byte.
\<close>

theorem stream_frame_roundtrip:
  assumes "n \<le> 0x20000" and "tag = 0x80 \<or> tag = 0xc0"
  shows "fst (fw_read_size (hd (stream_cmd tag n))
            (f\<lparr>ser_in := tl (stream_cmd tag n) @ rest\<rparr>)) = n"
  using read_size_masked[OF assms(2), where x = n and f = f and rest = rest]
  unfolding le_0x20000[OF assms(1)] .

theorem stream_frame_roundtrip_witness:
  "stream_cmd 0x80 0x20000 = [0x82, 0x00, 0x00]
   \<and> fst (fw_read_size (hd (stream_cmd 0x80 0x20000))
            (fw_stuck\<lparr>ser_in := tl (stream_cmd 0x80 0x20000) @ []\<rparr>)) = 0x20000"
  using stream_frame_roundtrip [where n = "0x20000" and tag = "0x80" and f = fw_stuck and rest = "[]"]
  by (simp add: stream_cmd_def)

section \<open>A read pass whose stream fails\<close>

text \<open>
  Claim C3 says that a read pass over the serial transport whose bulk read stream fails
  makes \<open>read_bios\<close> return non-zero. The code does not: on the serial bridge, with a chip
  that answers the read initialisation and a bridge that then stays silent, the stream
  primitive returns 1 (its first readiness wait times out), \<open>read_bios\<close> prints its
  error message, goes on to reset the chip and to write the buffer to the file, and
  returns 0. The sibling operations \<open>write_bios\<close> and \<open>compare_bios\<close> return 1 at the same
  point. The buffer \<open>bios_buffer\<close> is arbitrary.
\<close>

theorem read_bios_stream_timeout:
  "fst (serial_read_byte_stream bios_buffer BIOS_SIZE (snd (init_read_mode host_bridge_silent))) = 1
   \<and> fst (read_bios bios_buffer host_bridge_silent) = 0"
proof -
  let ?s1 = "snd (init_read_mode host_bridge_silent)"
  have i: "fst (init_read_mode host_bridge_silent) = 0"
    by (simp add: init_read_mode_def outp_chain_prompt chip_prompt_bridge_silent)
  have f: "rx ?s1 = []" "wr_ok ?s1 (wr_cnt ?s1)" "serial ?s1" "fopen_ok ?s1"
    by (simp_all add: init_read_mode_def host_bridge_silent_def host_prompt_def host_stuck_def)
  have st: "fst (serial_read_byte_stream bios_buffer BIOS_SIZE ?s1) = 1"
    by (rule read_stream_timeout) (simp_all add: f BIOS_SIZE_def)
  have keep: "serial (snd (snd (serial_read_byte_stream bios_buffer BIOS_SIZE ?s1)))"
    "fopen_ok (snd (snd (serial_read_byte_stream bios_buffer BIOS_SIZE ?s1)))"
    using f
    by (simp_all add: serial_read_byte_stream_def serial_write_def read_stream_loop.simps
        serial_wait_data_def BIOS_SIZE_def)
  have rb: "fst (read_bios bios_buffer host_bridge_silent) = 0"
    using i f keep
    by (simp add: read_bios_def case_prod_beta Let_def read_loop.simps)
  from st rb show ?thesis by simp
qed

section \<open>A streaming write of 61 bytes\<close>

text \<open>
  Claim C2, amended. A streaming write of exactly 61 bytes makes exactly 2 chunk round
  trips. The host sends the frame \<open>0xC0 0x00 0x3D\<close>, the first 60 bytes, and, after an
  acknowledgment of 60, the last byte followed by 59 zero bytes; after a second
  acknowledgment of 60 it returns success, having consumed both acknowledgments. The
  firmware, given these bytes and a chip that acknowledges its pentads, reads the length
  61, refills its buffer twice with 60 bytes, answers each refill with the byte 60 (the
  count of bytes read, padding included, not the 1 byte of payload), and returns success
  with nothing left unread.
\<close>

theorem stream_write_61_round_trips:
  assumes "length data = 61"
    and "\<forall>k. wr_ok h k"
    and "rx h = [Avail [60], Avail [60]]"
    and "fw_chip_prompt f"
  shows "serial_write_byte_stream data 61 h =
           (0, h\<lparr>tx := tx h @ [0xc0, 0x00, 0x3d] @ take 60 data @ [data ! 60] @ replicate 59 0,
                  wr_cnt := wr_cnt h + 4, rx := []\<rparr>)
       \<and> fst (fw_write_byte_stream 0xc0
                (f\<lparr>ser_in := [0x00, 0x3d] @ take 60 data @ [data ! 60] @ replicate 59 0\<rparr>)) = 0
       \<and> ser_out (snd (fw_write_byte_stream 0xc0
                (f\<lparr>ser_in := [0x00, 0x3d] @ take 60 data @ [data ! 60] @ replicate 59 0\<rparr>)))
           = ser_out f @ [60, 60]
       \<and> ser_in (snd (fw_write_byte_stream 0xc0
                (f\<lparr>ser_in := [0x00, 0x3d] @ take 60 data @ [data ! 60] @ replicate 59 0\<rparr>)))
           = []"
proof -
  let ?f = "f\<lparr>ser_in := [0x00, 0x3d] @ take 60 data @ [data ! 60] @ replicate 59 0\<rparr>"
  have host: "serial_write_byte_stream data 61 h =
           (0, h\<lparr>tx := tx h @ [0xc0, 0x00, 0x3d] @ take 60 data @ [data ! 60] @ replicate 59 0,
                  wr_cnt := wr_cnt h + 4, rx := []\<rparr>)"
    using host_stream_61[OF assms(1,2,3)] by simp
  have "fw_chip_prompt ?f"
    using assms(4) by simp
  moreover have "ser_in ?f = [0x00, 0x3d] @ take 60 data @ ([data ! 60] @ replicate 59 0)"
    by simp
  moreover have "length (take 60 data) = 60" "length ([data ! 60] @ replicate 59 0) = 60"
    using assms(1) by simp_all
  ultimately have
    "fst (fw_write_byte_stream 0xc0 ?f) = 0
     \<and> ser_out (snd (fw_write_byte_stream 0xc0 ?f)) = ser_out ?f @ [60, 60]
     \<and> ser_in (snd (fw_write_byte_stream 0xc0 ?f)) = []"
    by (rule fw_stream_61)
  with host show ?thesis
    by simp
qed

theorem stream_write_61_round_trips_witness:
  "serial_write_byte_stream (replicate 61 0x42) 61
       (host_bridge_silent\<lparr>rx := [Avail [60], Avail [60]]\<rparr>) =
     (0, host_bridge_silent\<lparr>tx := [0xc0, 0x00, 0x3d] @ replicate 60 0x42
                                     @ [0x42] @ replicate 59 0,
                             wr_cnt := 4, rx := []\<rparr>)
   \<and> fst (fw_write_byte_stream 0xc0
          (fw_prompt\<lparr>ser_in := [0x00, 0x3d] @ replicate 60 0x42
                                 @ [0x42] @ replicate 59 0\<rparr>)) = 0
   \<and> ser_out (snd (fw_write_byte_stream 0xc0
          (fw_prompt\<lparr>ser_in := [0x00, 0x3d] @ replicate 60 0x42
                                 @ [0x42] @ replicate 59 0\<rparr>))) = [60, 60]"
proof -
  let ?h = "host_bridge_silent\<lparr>rx := [Avail [60], Avail [60]]\<rparr>"
  have 1: "length (replicate 61 (0x42 :: u8)) = 61"
    by simp
  have 2: "\<forall>k. wr_ok ?h k"
    by (simp add: host_bridge_silent_def host_prompt_def host_stuck_def)
  have 3: "rx ?h = [Avail [60], Avail [60]]"
    by simp
  show ?thesis
    using stream_write_61_round_trips[OF 1 2 3 fw_chip_prompt_fw_prompt]
    by (simp add: host_bridge_silent_def host_prompt_def host_stuck_def fw_prompt_def
        fw_stuck_def)
qed

text \<open>
  The claim as stated fails at the second acknowledgment: the firmware answers the padded
  chunk of one byte with 60, the number of bytes it read, and a host that received 1
  would give up with status 1.
\<close>

theorem stream_write_61_second_ack_counterexample:
  "ser_out (snd (fw_write_byte_stream 0xc0
      (fw_prompt\<lparr>ser_in := [0x00, 0x3d] @ replicate 60 0x42 @ ([0x42] @ replicate 59 0)\<rparr>)))
     = [60, 60]
   \<and> fst (serial_write_byte_stream (replicate 61 0x42) 61
            (host_bridge_silent\<lparr>rx := [Avail [60], Avail [1]]\<rparr>)) = 1"
proof -
  let ?f = "fw_prompt\<lparr>ser_in := [0x00, 0x3d] @ replicate 60 0x42 @ ([0x42] @ replicate 59 0)\<rparr>"
  let ?h = "host_bridge_silent\<lparr>rx := [Avail [60], Avail [1]]\<rparr>"
  have "fw_chip_prompt ?f"
    using fw_chip_prompt_fw_prompt by simp
  moreover have "ser_in ?f = [0x00, 0x3d] @ replicate 60 0x42 @ ([0x42] @ replicate 59 0)"
    by simp
  moreover have "length (replicate 60 (0x42 :: u8)) = 60"
      "length ([0x42 :: u8] @ replicate 59 0) = 60"
    by simp_all
  ultimately have
    "fst (fw_write_byte_stream 0xc0 ?f) = 0
     \<and> ser_out (snd (fw_write_byte_stream 0xc0 ?f)) = ser_out ?f @ [60, 60]
     \<and> ser_in (snd (fw_write_byte_stream 0xc0 ?f)) = []"
    by (rule fw_stream_61)
  then have fw: "ser_out (snd (fw_write_byte_stream 0xc0 ?f)) = [60, 60]"
    by (simp add: fw_prompt_def fw_stuck_def)
  have "length (replicate 61 (0x42 :: u8)) = 61" "\<forall>k. wr_ok ?h k"
      "rx ?h = [Avail [60], Avail [1]]"
    by (simp_all add: host_bridge_silent_def host_prompt_def host_stuck_def)
  then have "fst (serial_write_byte_stream (replicate 61 0x42) 61 ?h) = 1"
    by (simp add: host_stream_61)
  with fw show ?thesis
    by simp
qed

section \<open>When the erase operation reports completion\<close>




section \<open>A fault during the erase pentads\<close>

text \<open>
  Claim C9, amended. A SignalFault occurring during the 13 erase pentads is not retried
  and does not abort the operation, and no failure is reported to the caller:
  \<open>erase_chip\<close> returns no status. Whichever of the 13 emissions faults, and in whatever
  state: every run that returns has put on the lines 13 erase pentads, the faulted one
  once like the others, followed by the first pentad of the read initialisation; and
  when the pairs \<open>init_read_mode(); read_byte(&c2)\<close> that follow succeed and the byte
  reads \<open>k + 1\<close> and \<open>k + 2\<close> are the first two consecutive ones that return the same
  value, \<open>erase_chip\<close> reports completion right after them, as in a run without fault.
\<close>

theorem erase_chip_ignores_faults:
  "(i < 13 \<and> fst (outp CMD_ERASE (outp_repeat i CMD_ERASE s)) = 1
      \<and> erase_chip c2_init s = Some s'
    \<longrightarrow> (\<exists>zs. pentads_of (emitted s s') = replicate 13 CMD_ERASE @ 0x11 # zs))
   \<and> (i < 13 \<and> fst (outp CMD_ERASE (outp_repeat i CMD_ERASE s)) = 1
      \<and> passes_ok (Suc k) c2_init (outp_repeat 13 CMD_ERASE s)
      \<and> first_equal_pair k c2_init (outp_repeat 13 CMD_ERASE s)
    \<longrightarrow> erase_chip c2_init s =
          Some (snd (snd (erase_read (Suc k) c2_init (outp_repeat 13 CMD_ERASE s))))
        \<and> pentads_of (emitted s
            (snd (snd (erase_read (Suc k) c2_init (outp_repeat 13 CMD_ERASE s)))))
          = replicate 13 CMD_ERASE @ concat (replicate (k + 2) read_pass_pentads))"
proof (intro conjI impI)
  assume "i < 13 \<and> fst (outp CMD_ERASE (outp_repeat i CMD_ERASE s)) = 1
      \<and> erase_chip c2_init s = Some s'"
  then have "erase_chip c2_init s = Some s'"
    by simp
  then show "\<exists>zs. pentads_of (emitted s s') = replicate 13 CMD_ERASE @ 0x11 # zs"
    by (rule erase_chip_log_first)
next
  assume a: "i < 13 \<and> fst (outp CMD_ERASE (outp_repeat i CMD_ERASE s)) = 1
      \<and> passes_ok (Suc k) c2_init (outp_repeat 13 CMD_ERASE s)
      \<and> first_equal_pair k c2_init (outp_repeat 13 CMD_ERASE s)"
  show "erase_chip c2_init s =
          Some (snd (snd (erase_read (Suc k) c2_init (outp_repeat 13 CMD_ERASE s))))"
    using a by (intro erase_chip_converges(1)) simp_all
  show "pentads_of (emitted s
            (snd (snd (erase_read (Suc k) c2_init (outp_repeat 13 CMD_ERASE s)))))
          = replicate 13 CMD_ERASE @ concat (replicate (k + 2) read_pass_pentads)"
    using a by (intro erase_chip_converges(2)) simp_all
qed

text \<open>
  The theorem at \<open>host_deaf_erase\<close>: the first erase pentad faults, the two pairs that
  follow succeed, and \<open>erase_chip\<close> returns after them.
\<close>

theorem erase_chip_ignores_faults_witness:
  "(0::nat) < 13
   \<and> fst (outp CMD_ERASE (outp_repeat 0 CMD_ERASE host_deaf_erase)) = 1
   \<and> passes_ok (Suc 0) 0x5a (outp_repeat 13 CMD_ERASE host_deaf_erase)
   \<and> first_equal_pair 0 0x5a (outp_repeat 13 CMD_ERASE host_deaf_erase)
   \<and> erase_chip 0x5a host_deaf_erase =
       Some (snd (snd (erase_read (Suc 0) 0x5a (outp_repeat 13 CMD_ERASE host_deaf_erase))))
   \<and> pentads_of (emitted host_deaf_erase
         (snd (snd (erase_read (Suc 0) 0x5a (outp_repeat 13 CMD_ERASE host_deaf_erase)))))
       = replicate 13 CMD_ERASE @ read_pass_pentads @ read_pass_pentads"
proof -
  let ?d = "outp_repeat 13 CMD_ERASE host_deaf_erase"
  have lt: "(0::nat) < 13"
    by simp
  have flt: "fst (outp CMD_ERASE (outp_repeat 0 CMD_ERASE host_deaf_erase)) = 1"
    by (simp add: host_deaf_erase_fault)
  have ok: "passes_ok (Suc 0) 0x5a ?d"
    by (simp add: passes_ok_1 host_deaf_erase_reads del: erase_read.simps erase_init.simps)
  have eq: "first_equal_pair 0 0x5a ?d"
    by (simp add: first_equal_pair_0 host_deaf_erase_reads del: erase_read.simps)
  have stop: "erase_chip 0x5a host_deaf_erase = Some (snd (snd (erase_read (Suc 0) 0x5a ?d)))"
    and pent: "pentads_of (emitted host_deaf_erase (snd (snd (erase_read (Suc 0) 0x5a ?d))))
       = replicate 13 CMD_ERASE @ read_pass_pentads @ read_pass_pentads"
    using erase_chip_ignores_faults[of 0 host_deaf_erase "0x5a" _ 0] lt flt ok eq
    by (simp_all only: replicate_2_pentads)
  from lt flt ok eq stop pent show ?thesis
    by (simp only: simp_thms)
qed

text \<open>
  The claim as stated fails at \<open>host_deaf_erase\<close>: the first erase pentad faults (\<open>outp\<close>
  returns 1), the operation goes on, both byte reads succeed and return \<open>0x00\<close>, and
  \<open>erase_chip\<close> runs to its end after 124 samples, whatever \<open>c2\<close> held at first. The only
  sleeps of the run are those of the 13 handshakes that gave up.
\<close>

theorem erase_chip_fault_not_reported_counterexample:
  "fst (outp CMD_ERASE host_deaf_erase) = 1
   \<and> fst (erase_read 0 0x5a (outp_repeat 13 CMD_ERASE host_deaf_erase)) = 0
   \<and> fst (erase_read (Suc 0) 0x5a (outp_repeat 13 CMD_ERASE host_deaf_erase)) = 0
   \<and> erase_chip 0x5a host_deaf_erase =
       Some (snd (snd (erase_read (Suc 0) 0x5a (outp_repeat 13 CMD_ERASE host_deaf_erase))))
   \<and> erase_chip 0xa5 host_deaf_erase =
       Some (snd (snd (erase_read (Suc 0) 0x5a (outp_repeat 13 CMD_ERASE host_deaf_erase))))
   \<and> in_cnt (snd (snd (erase_read (Suc 0) 0x5a (outp_repeat 13 CMD_ERASE host_deaf_erase)))) = 124
   \<and> slept (snd (snd (erase_read (Suc 0) 0x5a (outp_repeat 13 CMD_ERASE host_deaf_erase))))
       = concat (replicate 13 [125, 250, 500, 1000])"
proof -
  let ?d = "outp_repeat 13 CMD_ERASE host_deaf_erase"
  have ok: "passes_ok (Suc 0) 0x5a ?d"
    by (simp add: passes_ok_1 host_deaf_erase_reads del: erase_read.simps erase_init.simps)
  have eq: "first_equal_pair 0 0x5a ?d"
    by (simp add: first_equal_pair_0 host_deaf_erase_reads del: erase_read.simps)
  have r: "fst (erase_read 0 0x5a ?d) = 0" "fst (erase_read (Suc 0) 0x5a ?d) = 0"
      "in_cnt (snd (snd (erase_read (Suc 0) 0x5a ?d))) = 124"
      "slept (snd (snd (erase_read (Suc 0) 0x5a ?d))) = concat (replicate 13 [125, 250, 500, 1000])"
    using host_deaf_erase_reads(2)[of 0 "0x5a"] host_deaf_erase_reads(2,4,5)[of "Suc 0" "0x5a"]
    by simp_all
  note e = erase_chip_converges(1)[OF ok eq]
  from host_deaf_erase_fault r e[of "0x5a"] e[of "0xa5"] show ?thesis
    by (simp only: simp_thms)
qed

end
